theory Spec2Isabelle
  imports Main
begin

section \<open>The scheduler of \<open>src/disk_usage.js\<close>\<close>

text \<open>
  \<open>diskUsage(path, parallelism, debugLog)\<close> walks a directory tree with a work queue of
  two kinds of operations (\<open>statOp\<close>, \<open>readOp\<close>) and a self-driving function \<open>tick\<close>.
  All of its variables live in one closure; the model keeps them in one record and passes
  the record through every function.

  JavaScript runs the code on one thread. What is atomic is therefore one turn of the
  event loop: a callback and all the promise reactions (microtasks) it causes. The model
  has two kinds of turn:
  \<^item> the call of \<open>diskUsage\<close> itself (seed the queue, \<open>tick()\<close>, then the microtasks);
  \<^item> the completion of one file-system call that is in flight (the rest of that
    \<open>statOp\<close> or \<open>readOp\<close>, then the handler of line 73 or 77, then the microtasks).
  Which call in flight completes next is not determined by the program; a run is
  driven by a schedule that picks it.
\<close>

subsection \<open>Data\<close>

text \<open>
  Errors that can reach the handler of line 77: a \<open>TypeError\<close> (raised by
  \<open>op.exec(op)\<close> when \<open>op\<close> is \<open>undefined\<close>), the error of a failed \<open>fs.stat\<close> or
  \<open>fs.readdir\<close> (Node's system error, with its code), and whatever a \<open>debugLog\<close>
  callback throws.
\<close>

datatype error = TypeError | SystemError string | Thrown string

text \<open>\<open>fs.Stats\<close>, as far as the code reads it.\<close>

record stats =
  isDirectory :: bool
  isFile :: bool
  st_size :: nat

text \<open>
  The outside world of the scheduler: \<open>asyncStat\<close>, \<open>asyncReaddir\<close> (line 5 and 6) and
  \<open>libPath.resolve\<close>. Each is a function of the path only: the tree does not change
  during a run.
\<close>

record env =
  asyncStat :: "string \<Rightarrow> error + stats"
  asyncReaddir :: "string \<Rightarrow> error + string list"
  resolve :: "string list \<Rightarrow> string"

text \<open>An entry of the queue: \<open>{ path, exec }\<close>, where \<open>exec\<close> is one of the two functions.\<close>

datatype exec = StatOp | ReadOp

record op =
  path :: string
  exec :: exec

text \<open>
  The object \<open>result\<close> (line 16). The two timestamps are wall-clock readings and are
  left out. \<open>rpath\<close>, \<open>rparallelism\<close> and \<open>rsize\<close> are the fields \<open>path\<close>,
  \<open>parallelism\<close> and \<open>size\<close>. Sizes and counters are JavaScript numbers; they are
  modelled as natural numbers (exact below \<open>2 ^ 53\<close>).
\<close>

record report =
  rpath :: string
  rparallelism :: int
  maxActive :: nat
  rsize :: nat
  files :: nat
  directories :: nat

text \<open>
  A call of \<open>resultPromise.resolve(result)\<close> or \<open>resultPromise.reject(err)\<close>. The state
  keeps the list of all such calls, in order, so that "settled once" is a property to
  prove and not one built into the model. \<open>Resolve\<close> carries the value of \<open>result\<close>
  at the moment of the call.
\<close>

datatype settle = Resolve report | Reject error

text \<open>The arguments \<open>(op, path, info)\<close> of one call of \<open>debugLog\<close>.\<close>

type_synonym logline = "string \<times> string \<times> string"

text \<open>
  The closure variables of \<open>diskUsage\<close>, and the bookkeeping of the event loop:
  \<^item> \<open>microtasks\<close>: the reactions \<open>() => op.exec(op)\<close> registered by line 70 and 71 in
    this turn and not yet run; \<open>None\<close> stands for \<open>op = undefined\<close>;
  \<^item> \<open>inflight\<close>: the operations that wait for their file-system call;
  \<^item> \<open>logged\<close>: the calls of \<open>debugLog\<close> made so far.
\<close>

record state =
  result :: report
  activeCount :: int
  queue :: "op list"
  completed :: bool
  settled :: "settle list"
  microtasks :: "op option list"
  inflight :: "op list"
  logged :: "logline list"

subsection \<open>The queue\<close>

definition enqueueRead :: "string \<Rightarrow> state \<Rightarrow> state" where
  "enqueueRead p s = s\<lparr>queue := queue s @ [\<lparr>path = p, exec = ReadOp\<rparr>]\<rparr>"

definition enqueueStat :: "string \<Rightarrow> state \<Rightarrow> state" where
  "enqueueStat p s = s\<lparr>queue := queue s @ [\<lparr>path = p, exec = StatOp\<rparr>]\<rparr>"

text \<open>\<open>queue.pop()\<close>: the last element, or \<open>undefined\<close> on an empty array, which stays empty.\<close>

definition pop :: "op list \<Rightarrow> op option \<times> op list" where
  "pop q = (if q = [] then (None, []) else (Some (last q), butlast q))"

subsection \<open>\<open>tick\<close>\<close>

text \<open>
  Line 68 to 85: take the next operation, count it as active and register its execution
  as a microtask. Nothing here looks at whether \<open>pop\<close> returned an operation.
\<close>

definition launch :: "state \<Rightarrow> state" where
  "launch s =
     (case pop (queue s) of (opn, q') \<Rightarrow>
        s\<lparr>queue := q', activeCount := activeCount s + 1,
          microtasks := microtasks s @ [opn]\<rparr>)"

text \<open>
  \<open>tick\<close> (line 49 to 89). \<open>parallelism && parallelism <= activeCount\<close> is false for
  \<open>parallelism = 0\<close>. The function calls itself after every launch (line 88); the model
  is a partial function, and \<open>None\<close> means that the recursion does not come to an end
  (in Node the call stack overflows and a \<open>RangeError\<close> leaves \<open>tick\<close>; the model
  follows such a turn no further).
\<close>

partial_function (option) tick :: "int \<Rightarrow> state \<Rightarrow> state option" where
  "tick parallelism s =
     (if completed s then Some s
      else if parallelism \<noteq> 0 \<and> parallelism \<le> activeCount s then Some s
      else if activeCount s = 0 \<and> queue s = [] then
        Some (s\<lparr>completed := True, settled := settled s @ [Resolve (result s)]\<rparr>)
      else tick parallelism (launch s))"

declare tick.simps [code]

subsection \<open>The two operations\<close>

text \<open>The decimal notation of a number, as a template literal prints it.\<close>

function string_of_nat :: "nat \<Rightarrow> string" where
  "string_of_nat n =
     (if n < 10 then [char_of (48 + n)]
      else string_of_nat (n div 10) @ [char_of (48 + n mod 10)])"
  by pat_completeness auto
termination
  by (relation "measure id") auto

declare string_of_nat.simps [simp del]

text \<open>
  A \<open>debugLog\<close> callback, seen from the scheduler: it is called with three strings and
  either returns (\<open>None\<close>; the value is ignored) or throws (\<open>Some err\<close>).
\<close>

type_synonym callback = "string \<Rightarrow> string \<Rightarrow> string \<Rightarrow> error option"

text \<open>
  \<open>debugLog && debugLog(op, path, info)\<close>. The first component of the result says
  whether the call threw.
\<close>

definition call_debugLog ::
  "callback option \<Rightarrow> string \<Rightarrow> string \<Rightarrow> string \<Rightarrow> state \<Rightarrow> error option \<times> state" where
  "call_debugLog debugLog opname p info s =
     (case debugLog of
        None \<Rightarrow> (None, s)
      | Some cb \<Rightarrow> (cb opname p info, s\<lparr>logged := logged s @ [(opname, p, info)]\<rparr>))"

text \<open>
  \<open>statOp\<close> (line 102 to 116) and \<open>readOp\<close> (line 91 to 100), from the completion of
  the awaited file-system call to the end of the function. The result is the state the
  function leaves, and the error its promise is rejected with, if any.
\<close>

definition statOp :: "env \<Rightarrow> callback option \<Rightarrow> op \<Rightarrow> state \<Rightarrow> error option \<times> state" where
  "statOp fs debugLog x s =
     (case asyncStat fs (path x) of
        Inl err \<Rightarrow> (Some err, s)
      | Inr st \<Rightarrow>
          if isDirectory st then
            call_debugLog debugLog ''STAT'' (path x) ''DIR''
              (enqueueRead (path x)
                 (s\<lparr>result := (result s)\<lparr>directories := directories (result s) + 1\<rparr>\<rparr>))
          else if isFile st then
            call_debugLog debugLog ''STAT'' (path x) (string_of_nat (st_size st) @ '' bytes'')
              (s\<lparr>result := (result s)\<lparr>files := files (result s) + 1,
                                         rsize := rsize (result s) + st_size st\<rparr>\<rparr>)
          else call_debugLog debugLog ''STAT'' (path x) ''---'' s)"

definition readOp :: "env \<Rightarrow> callback option \<Rightarrow> op \<Rightarrow> state \<Rightarrow> error option \<times> state" where
  "readOp fs debugLog x s =
     (case asyncReaddir fs (path x) of
        Inl err \<Rightarrow> (Some err, s)
      | Inr names \<Rightarrow>
          (case call_debugLog debugLog ''READ'' (path x)
                  (string_of_nat (length names) @ '' items'') s of
             (Some err, s1) \<Rightarrow> (Some err, s1)
           | (None, s1) \<Rightarrow>
               (None, foldl (\<lambda>s' file. enqueueStat (resolve fs [path x, file]) s') s1 names)))"

text \<open>\<open>op.exec(op)\<close> for an operation that is not \<open>undefined\<close>.\<close>

definition exec_op :: "env \<Rightarrow> callback option \<Rightarrow> op \<Rightarrow> state \<Rightarrow> error option \<times> state" where
  "exec_op fs debugLog x s =
     (case exec x of StatOp \<Rightarrow> statOp fs debugLog x s | ReadOp \<Rightarrow> readOp fs debugLog x s)"

subsection \<open>The two handlers of a launched task\<close>

text \<open>Line 73 to 76.\<close>

definition onFulfilled :: "int \<Rightarrow> state \<Rightarrow> state option" where
  "onFulfilled parallelism s = tick parallelism (s\<lparr>activeCount := activeCount s - 1\<rparr>)"

text \<open>Line 77 to 84.\<close>

definition onRejected :: "error \<Rightarrow> state \<Rightarrow> state" where
  "onRejected err s =
     (if completed s then s\<lparr>activeCount := activeCount s - 1\<rparr>
      else s\<lparr>activeCount := activeCount s - 1, completed := True,
             settled := settled s @ [Reject err]\<rparr>)"

subsection \<open>Turns of the event loop\<close>

text \<open>
  A registered reaction \<open>() => op.exec(op)\<close> runs: an operation starts its file-system
  call and is in flight from then on; \<open>undefined.exec\<close> throws a \<open>TypeError\<close>, which
  goes to the handler of line 77.
\<close>

fun run_microtask :: "state \<Rightarrow> op option \<Rightarrow> state" where
  "run_microtask s (Some x) = s\<lparr>inflight := inflight s @ [x]\<rparr>"
| "run_microtask s None = onRejected TypeError s"

definition drain :: "state \<Rightarrow> state" where
  "drain s = foldl run_microtask (s\<lparr>microtasks := []\<rparr>) (microtasks s)"

text \<open>
  The file-system call of the \<open>i\<close>-th operation in flight completes: the operation
  runs to its end, then its handler, then the microtasks. An index that names no
  operation in flight is no event.
\<close>

definition complete :: "env \<Rightarrow> int \<Rightarrow> callback option \<Rightarrow> nat \<Rightarrow> state \<Rightarrow> state option" where
  "complete fs parallelism debugLog i s =
     (if i < length (inflight s) then
        (case exec_op fs debugLog (inflight s ! i)
                (s\<lparr>inflight := take i (inflight s) @ drop (Suc i) (inflight s)\<rparr>) of
           (None, s1) \<Rightarrow> map_option drain (onFulfilled parallelism s1)
         | (Some err, s1) \<Rightarrow> Some (onRejected err s1))
      else Some s)"

text \<open>Line 16 to 28: the variables as \<open>diskUsage\<close> initialises them.\<close>

definition init :: "env \<Rightarrow> string \<Rightarrow> int \<Rightarrow> state" where
  "init fs p parallelism =
     \<lparr>result = \<lparr>rpath = resolve fs [p], rparallelism = parallelism, maxActive = 0,
                 rsize = 0, files = 0, directories = 0\<rparr>,
      activeCount = 0, queue = [], completed = False, settled = [],
      microtasks = [], inflight = [], logged = []\<rparr>"

text \<open>
  The call of \<open>diskUsage\<close> (line 36 and 37) and the microtasks it leaves. \<open>debugLog\<close>
  is only stored by the call; the operations use it later.
\<close>

definition diskUsage :: "env \<Rightarrow> string \<Rightarrow> int \<Rightarrow> callback option \<Rightarrow> state option" where
  "diskUsage fs p parallelism debugLog =
     map_option drain (tick parallelism (enqueueStat p (init fs p parallelism)))"

text \<open>A run: the call, then the completions a schedule picks, in order.\<close>

fun events :: "env \<Rightarrow> int \<Rightarrow> callback option \<Rightarrow> nat list \<Rightarrow> state \<Rightarrow> state option" where
  "events fs parallelism debugLog [] s = Some s"
| "events fs parallelism debugLog (i # sched) s =
     (case complete fs parallelism debugLog i s of
        None \<Rightarrow> None
      | Some s' \<Rightarrow> events fs parallelism debugLog sched s')"

definition run ::
  "env \<Rightarrow> string \<Rightarrow> int \<Rightarrow> callback option \<Rightarrow> nat list \<Rightarrow> state option" where
  "run fs p parallelism debugLog sched =
     (case diskUsage fs p parallelism debugLog of
        None \<Rightarrow> None
      | Some s \<Rightarrow> events fs parallelism debugLog sched s)"

subsection \<open>The program points of a run\<close>

text \<open>
  \<open>run\<close> gives the state between two turns. Inside a turn the variables pass through
  more values; the points below are all the places where the code of \<open>diskUsage\<close>
  reads or has just written them:
  \<^item> \<open>Tick s\<close>: \<open>tick\<close> is entered (line 49) with the variables as in \<open>s\<close>;
  \<^item> \<open>Micro ms s\<close>: the synchronous part of the turn is over and the reactions \<open>ms\<close>
    registered by line 70 and 71 are still to run;
  \<^item> \<open>Handler r s\<close>: an operation has run to its end, with the error \<open>r\<close> if it
    failed, and its handler (line 73 or 77) is about to run;
  \<^item> \<open>Idle s\<close>: the turn is over.
\<close>

datatype point =
    Tick state
  | Micro "op option list" state
  | Handler "error option" state
  | Idle state

fun state_of :: "point \<Rightarrow> state" where
  "state_of (Tick s) = s"
| "state_of (Micro ms s) = s"
| "state_of (Handler r s) = s"
| "state_of (Idle s) = s"

text \<open>
  The tasks that were launched (line 69) and whose handler has not run yet: registered,
  in flight, or just finished.
\<close>

fun outstanding :: "point \<Rightarrow> nat" where
  "outstanding (Tick s) = length (microtasks s) + length (inflight s)"
| "outstanding (Micro ms s) = length ms + length (inflight s)"
| "outstanding (Handler r s) = Suc (length (inflight s))"
| "outstanding (Idle s) = length (inflight s)"

text \<open>
  A call of \<open>tick\<close> returns at once, through line 51, 56 or 64, when it hands back the
  state it got, or that state resolved. Otherwise it has gone through line 68 and 69 and
  called itself on \<open>launch s\<close> (\<open>tick_stops_iff\<close> below reads this off the three tests).
\<close>

definition tick_stops :: "int \<Rightarrow> state \<Rightarrow> bool" where
  "tick_stops par s \<longleftrightarrow>
     tick par s = Some s \<or>
     tick par s = Some (s\<lparr>completed := True, settled := settled s @ [Resolve (result s)]\<rparr>)"

text \<open>
  The points a run on path \<open>p\<close> passes through, by the same functions as \<open>diskUsage\<close>,
  \<open>drain\<close> and \<open>complete\<close>: the seeded queue and the first \<open>tick\<close> (line 36, 37);
  the next \<open>tick\<close> after a launch (line 88); the return of \<open>tick\<close>; one reaction after
  the other; the completion of any operation in flight; the handler of line 73, which
  decrements and calls \<open>tick\<close>; the handler of line 77.
\<close>

inductive_set points :: "env \<Rightarrow> string \<Rightarrow> int \<Rightarrow> callback option \<Rightarrow> point set"
  for fs :: env and p :: string and par :: int and dbg :: "callback option" where
  seed: "Tick (enqueueStat p (init fs p par)) \<in> points fs p par dbg"
| launch: "Tick s \<in> points fs p par dbg \<Longrightarrow> \<not> tick_stops par s \<Longrightarrow>
     Tick (launch s) \<in> points fs p par dbg"
| return: "Tick s \<in> points fs p par dbg \<Longrightarrow> tick par s = Some s' \<Longrightarrow>
     Micro (microtasks s') (s'\<lparr>microtasks := []\<rparr>) \<in> points fs p par dbg"
| reaction: "Micro (m # ms) s \<in> points fs p par dbg \<Longrightarrow>
     Micro ms (run_microtask s m) \<in> points fs p par dbg"
| idle: "Micro [] s \<in> points fs p par dbg \<Longrightarrow> Idle s \<in> points fs p par dbg"
| completion: "Idle s \<in> points fs p par dbg \<Longrightarrow> i < length (inflight s) \<Longrightarrow>
     exec_op fs dbg (inflight s ! i)
       (s\<lparr>inflight := take i (inflight s) @ drop (Suc i) (inflight s)\<rparr>) = (r, s1) \<Longrightarrow>
     Handler r s1 \<in> points fs p par dbg"
| fulfilled: "Handler None s \<in> points fs p par dbg \<Longrightarrow>
     Tick (s\<lparr>activeCount := activeCount s - 1\<rparr>) \<in> points fs p par dbg"
| rejected: "Handler (Some err) s \<in> points fs p par dbg \<Longrightarrow>
     Idle (onRejected err s) \<in> points fs p par dbg"

subsection \<open>Directory trees\<close>

text \<open>
  A finite tree of directory entries: a regular file with its size, a directory with
  its named entries, or an entry of another kind.
\<close>

datatype node = FileN nat | DirN "(string \<times> node) list" | OtherN

text \<open>
  The file system shows tree \<open>t\<close> at path \<open>p\<close>: the answers of \<open>stat\<close> and \<open>readdir\<close>
  on \<open>p\<close> and below are those of \<open>t\<close>. The cases follow the order in which \<open>statOp\<close>
  asks (\<open>isDirectory\<close> first).
\<close>

fun represents :: "env \<Rightarrow> string \<Rightarrow> node \<Rightarrow> bool" where
  "represents fs p (FileN n) =
     (case asyncStat fs p of
        Inl err \<Rightarrow> False
      | Inr st \<Rightarrow> \<not> isDirectory st \<and> isFile st \<and> st_size st = n)"
| "represents fs p OtherN =
     (case asyncStat fs p of
        Inl err \<Rightarrow> False
      | Inr st \<Rightarrow> \<not> isDirectory st \<and> \<not> isFile st)"
| "represents fs p (DirN kids) =
     ((case asyncStat fs p of Inl err \<Rightarrow> False | Inr st \<Rightarrow> isDirectory st) \<and>
      asyncReaddir fs p = Inr (map fst kids) \<and>
      list_all (\<lambda>(name, k). represents fs (resolve fs [p, name]) k) kids)"

fun count_dirs :: "node \<Rightarrow> nat" where
  "count_dirs (FileN n) = 0"
| "count_dirs OtherN = 0"
| "count_dirs (DirN kids) = 1 + sum_list (map (\<lambda>(name, k). count_dirs k) kids)"

fun count_files :: "node \<Rightarrow> nat" where
  "count_files (FileN n) = 1"
| "count_files OtherN = 0"
| "count_files (DirN kids) = sum_list (map (\<lambda>(name, k). count_files k) kids)"

fun total_size :: "node \<Rightarrow> nat" where
  "total_size (FileN n) = n"
| "total_size OtherN = 0"
| "total_size (DirN kids) = sum_list (map (\<lambda>(name, k). total_size k) kids)"

subsection \<open>Example file systems\<close>

text \<open>\<open>libPath.resolve\<close> on an absolute path and names without separators.\<close>

fun join_path :: "string list \<Rightarrow> string" where
  "join_path [] = []"
| "join_path [p] = p"
| "join_path (p # q # ps) = join_path ((p @ ''/'' @ q) # ps)"

definition dir_stats :: stats where
  "dir_stats = \<lparr>isDirectory = True, isFile = False, st_size = 4096\<rparr>"

definition file_stats :: "nat \<Rightarrow> stats" where
  "file_stats n = \<lparr>isDirectory = False, isFile = True, st_size = n\<rparr>"

text \<open>
  \<open>/r\<close> holds the regular file \<open>f\<close> of 100 bytes and the empty directory \<open>d\<close>;
  no other path exists.
\<close>

definition fs_example :: env where
  "fs_example =
     \<lparr>asyncStat = (\<lambda>p. if p = ''/r'' then Inr dir_stats
                       else if p = ''/r/f'' then Inr (file_stats 100)
                       else if p = ''/r/d'' then Inr dir_stats
                       else Inl (SystemError ''ENOENT'')),
      asyncReaddir = (\<lambda>p. if p = ''/r'' then Inr [''f'', ''d'']
                          else if p = ''/r/d'' then Inr []
                          else Inl (SystemError ''ENOENT'')),
      resolve = join_path\<rparr>"

definition tree_example :: node where
  "tree_example = DirN [(''f'', FileN 100), (''d'', DirN [])]"

text \<open>
  The report of the run on \<open>/r\<close> with limit 1 and no callback, and the state the run
  ends in.
\<close>

definition report_example :: report where
  "report_example =
     \<lparr>rpath = ''/r'', rparallelism = 1, maxActive = 0, rsize = 100, files = 1,
      directories = 2\<rparr>"

definition final_example :: state where
  "final_example =
     \<lparr>result = report_example, activeCount = 0, queue = [], completed = True,
      settled = [Resolve report_example], microtasks = [], inflight = [], logged = []\<rparr>"

text \<open>
  Limit 2 on \<open>/r\<close>: the seeded state of the first \<open>tick\<close>, and the state the call of
  \<open>diskUsage\<close> ends in (the promise rejected by the undefined operation, the \<open>stat\<close>
  of the root in flight).
\<close>

definition seed_example :: state where
  "seed_example = enqueueStat ''/r'' (init fs_example ''/r'' 2)"

definition limit2_example :: state where
  "limit2_example =
     (init fs_example ''/r'' 2)\<lparr>activeCount := 1, completed := True,
        settled := [Reject TypeError], inflight := [\<lparr>path = ''/r'', exec = StatOp\<rparr>]\<rparr>"

text \<open>
  The path \<open>/nope\<close>, whose \<open>stat\<close> fails: the state the call of \<open>diskUsage\<close> with limit 2
  ends in, and the state in which the first \<open>tick\<close> with limit 3 returns (one operation
  and two undefined ones registered).
\<close>

definition nope_rejected :: state where
  "nope_rejected =
     (init fs_example ''/nope'' 2)\<lparr>activeCount := 1, completed := True,
        settled := [Reject TypeError],
        inflight := [\<lparr>path = ''/nope'', exec = StatOp\<rparr>]\<rparr>"

definition nope_filled :: state where
  "nope_filled =
     (init fs_example ''/nope'' 3)\<lparr>activeCount := 3,
        microtasks := [Some \<lparr>path = ''/nope'', exec = StatOp\<rparr>, None, None]\<rparr>"

subsection \<open>Invariants of the bookkeeping\<close>

text \<open>
  What holds whenever \<open>tick\<close> is entered or left: every launched task that has not
  reached a handler is counted once, the ceiling is respected, and \<open>completed\<close> is set
  exactly when the promise has been settled, which happened at most once.
\<close>

definition tick_inv :: "int \<Rightarrow> state \<Rightarrow> bool" where
  "tick_inv par s \<longleftrightarrow>
     activeCount s = int (length (microtasks s)) + int (length (inflight s)) \<and>
     (0 < par \<longrightarrow> activeCount s \<le> par) \<and>
     (completed s \<longleftrightarrow> settled s \<noteq> []) \<and> length (settled s) \<le> 1"

text \<open>Between two turns of the event loop no microtask is left.\<close>

definition turn_inv :: "int \<Rightarrow> state \<Rightarrow> bool" where
  "turn_inv par s \<longleftrightarrow> microtasks s = [] \<and> tick_inv par s"

text \<open>The invariant while the microtasks \<open>ms\<close> are still to run.\<close>

definition pending_inv :: "int \<Rightarrow> op option list \<Rightarrow> state \<Rightarrow> bool" where
  "pending_inv par ms s \<longleftrightarrow> microtasks s = [] \<and>
     activeCount s = int (length ms) + int (length (inflight s)) \<and>
     (0 < par \<longrightarrow> activeCount s \<le> par) \<and>
     (completed s \<longleftrightarrow> settled s \<noteq> []) \<and> length (settled s) \<le> 1"

text \<open>When a handler is about to run, the task it belongs to is still counted.\<close>

definition handler_inv :: "int \<Rightarrow> state \<Rightarrow> bool" where
  "handler_inv par s \<longleftrightarrow> microtasks s = [] \<and>
     activeCount s = int (length (inflight s)) + 1 \<and>
     (0 < par \<longrightarrow> activeCount s \<le> par) \<and>
     (completed s \<longleftrightarrow> settled s \<noteq> []) \<and> length (settled s) \<le> 1"

text \<open>The invariant of each kind of program point.\<close>

fun point_inv :: "int \<Rightarrow> point \<Rightarrow> bool" where
  "point_inv par (Tick s) = tick_inv par s"
| "point_inv par (Micro ms s) = pending_inv par ms s"
| "point_inv par (Handler r s) = handler_inv par s"
| "point_inv par (Idle s) = turn_inv par s"

subsection \<open>Accounting for the totals\<close>

text \<open>The tree a path shows, when there is one (it is unique, see below).\<close>

definition the_node :: "env \<Rightarrow> string \<Rightarrow> node" where
  "the_node fs p = (THE t. represents fs p t)"

text \<open>
  A weighted sum of the three totals of a tree; with the weights \<open>(1,0,0)\<close>,
  \<open>(0,1,0)\<close> and \<open>(0,0,1)\<close> it is each total in turn.
\<close>

definition weight :: "nat \<Rightarrow> nat \<Rightarrow> nat \<Rightarrow> node \<Rightarrow> nat" where
  "weight a b c t = a * count_dirs t + b * count_files t + c * total_size t"

text \<open>The same weighted sum of the three counters of the report.\<close>

definition credit :: "nat \<Rightarrow> nat \<Rightarrow> nat \<Rightarrow> report \<Rightarrow> nat" where
  "credit a b c r = a * directories r + b * files r + c * rsize r"

text \<open>
  What an operation that is still pending will add to the counters: a \<open>statOp\<close> the
  whole tree at its path, a \<open>readOp\<close> the entries of its directory.
\<close>

definition owed :: "nat \<Rightarrow> nat \<Rightarrow> nat \<Rightarrow> env \<Rightarrow> op \<Rightarrow> nat" where
  "owed a b c fs x =
     (case exec x of
        StatOp \<Rightarrow> weight a b c (the_node fs (path x))
      | ReadOp \<Rightarrow>
          (case the_node fs (path x) of
             DirN kids \<Rightarrow> sum_list (map (\<lambda>(name, k). weight a b c k) kids)
           | _ \<Rightarrow> 0))"

text \<open>
  A pending operation is about a path of the tree, and a \<open>readOp\<close> about a
  directory.
\<close>

definition known :: "env \<Rightarrow> op \<Rightarrow> bool" where
  "known fs x \<longleftrightarrow>
     (\<exists>t. represents fs (path x) t \<and> (exec x = ReadOp \<longrightarrow> (\<exists>kids. t = DirN kids)))"

text \<open>The operations among the registered microtasks.\<close>

fun launched :: "op option list \<Rightarrow> op list" where
  "launched [] = []"
| "launched (None # ms) = launched ms"
| "launched (Some x # ms) = x # launched ms"

text \<open>All operations not yet executed: queued, registered, or in flight.\<close>

definition pending :: "state \<Rightarrow> op list" where
  "pending s = queue s @ launched (microtasks s) @ inflight s"

text \<open>The counters and the pending operations together account for the whole tree.\<close>

definition acct :: "env \<Rightarrow> node \<Rightarrow> op list \<Rightarrow> report \<Rightarrow> bool" where
  "acct fs T ops r \<longleftrightarrow>
     (\<forall>x \<in> set ops. known fs x) \<and>
     (\<forall>a b c. credit a b c r + sum_list (map (owed a b c fs) ops) = weight a b c T)"

text \<open>
  The accounting holds until the promise is settled, and a report that was delivered
  carries the totals of the tree.
\<close>

definition totals_inv :: "env \<Rightarrow> node \<Rightarrow> op list \<Rightarrow> state \<Rightarrow> bool" where
  "totals_inv fs T ops s \<longleftrightarrow>
     (settled s = [] \<longrightarrow> acct fs T ops (result s)) \<and>
     (\<forall>r. Resolve r \<in> set (settled s) \<longrightarrow> (\<forall>a b c. credit a b c r = weight a b c T))"

subsection \<open>Runs with and without \<open>debugLog\<close>\<close>

text \<open>The state without the record of the \<open>debugLog\<close> calls.\<close>

definition erase_log :: "state \<Rightarrow> state" where
  "erase_log s = s\<lparr>logged := []\<rparr>"

text \<open>A callback that throws on every call, and one that returns.\<close>

definition throwing_logger :: callback where
  "throwing_logger opname p info = Some (Thrown ''boom'')"

definition quiet_logger :: callback where
  "quiet_logger opname p info = None"

section \<open>Properties\<close>

subsection \<open>Reasoning about \<open>tick\<close>\<close>

lemma tick_completed: "completed s \<Longrightarrow> tick par s = Some s"
  using tick.simps[of par s] by simp

lemmas tick_raw = tick.raw_induct [rotated 1, consumes 1, case_names step]

lemma tick_induct [consumes 1, case_names stop resolve launch]:
  assumes run: "tick par s = Some s'"
    and stop: "\<And>s. completed s \<or> (par \<noteq> 0 \<and> par \<le> activeCount s) \<Longrightarrow> P s s"
    and resolve: "\<And>s. \<not> completed s \<Longrightarrow> \<not> (par \<noteq> 0 \<and> par \<le> activeCount s) \<Longrightarrow>
        activeCount s = 0 \<Longrightarrow> queue s = [] \<Longrightarrow>
        P s (s\<lparr>completed := True, settled := settled s @ [Resolve (result s)]\<rparr>)"
    and launch: "\<And>s s'. \<not> completed s \<Longrightarrow> \<not> (par \<noteq> 0 \<and> par \<le> activeCount s) \<Longrightarrow>
        \<not> (activeCount s = 0 \<and> queue s = []) \<Longrightarrow> tick par (launch s) = Some s' \<Longrightarrow>
        P (launch s) s' \<Longrightarrow> P s s'"
  shows "P s s'"
proof -
  have "p = par \<longrightarrow> tick par s = Some s' \<and> P s s'" if "tick p s = Some s'" for p s s'
    using that
  proof (induction p s s' rule: tick_raw)
    case (step tick' p s y)
    show ?case
    proof
      assume p: "p = par"
      show "tick par s = Some y \<and> P s y"
      proof (cases "completed s \<or> (par \<noteq> 0 \<and> par \<le> activeCount s)")
        case True
        with step(2) p have "y = s" by (auto split: if_splits)
        moreover have "tick par s = Some s" using True tick.simps[of par s] by auto
        ultimately show ?thesis using stop[OF True] by simp
      next
        case nostop: False
        show ?thesis
        proof (cases "activeCount s = 0 \<and> queue s = []")
          case True
          with step(2) p nostop
          have y: "y = s\<lparr>completed := True, settled := settled s @ [Resolve (result s)]\<rparr>"
            by (auto split: if_splits)
          have "tick par s = Some y" using True nostop tick.simps[of par s] y by auto
          moreover have "P s y" unfolding y using resolve nostop True by blast
          ultimately show ?thesis by simp
        next
          case False
          with step(2) p nostop have "tick' par (launch s) = Some y" by (auto split: if_splits)
          with step(1) have ih: "tick par (launch s) = Some y \<and> P (launch s) y" by blast
          then have "tick par s = Some y" using nostop False tick.simps[of par s] by auto
          moreover have "P s y" using launch nostop False ih by blast
          ultimately show ?thesis by simp
        qed
      qed
    qed
  qed
  with run show ?thesis by simp
qed

lemma tick_returns:
  assumes "0 < par"
  shows "\<exists>s'. tick par s = Some s'"
proof (induction "nat (par - activeCount s)" arbitrary: s)
  case 0
  then have "par \<le> activeCount s" by simp
  with assms show ?case using tick.simps[of par s] by auto
next
  case (Suc n)
  show ?case
  proof (cases "completed s \<or> par \<le> activeCount s \<or> (activeCount s = 0 \<and> queue s = [])")
    case True
    with assms show ?thesis using tick.simps[of par s] by auto
  next
    case False
    have "n = nat (par - activeCount (launch s))"
      using Suc(2) by (simp add: launch_def split: prod.splits)
    from Suc(1)[OF this] obtain s' where "tick par (launch s) = Some s'" by blast
    with False assms show ?thesis using tick.simps[of par s] by auto
  qed
qed

lemma tick_unbounded_diverges:
  assumes "\<not> completed s" "0 \<le> activeCount s" "\<not> (activeCount s = 0 \<and> queue s = [])"
  shows "tick 0 s = None"
proof (rule ccontr)
  assume "tick 0 s \<noteq> None"
  then obtain y where y: "tick 0 s = Some y" by auto
  have "p = 0 \<longrightarrow> \<not> completed s \<longrightarrow> 0 \<le> activeCount s \<longrightarrow>
          \<not> (activeCount s = 0 \<and> queue s = []) \<longrightarrow> False"
    if "tick p s = Some y" for p s y
    using that
  proof (induction p s y rule: tick_raw)
    case (step tick' p s y)
    show ?case
    proof (intro impI)
      assume a: "p = 0" "\<not> completed s" "0 \<le> activeCount s" "\<not> (activeCount s = 0 \<and> queue s = [])"
      with step(2) have "tick' 0 (launch s) = Some y" by (auto split: if_splits)
      moreover have "\<not> completed (launch s)" "0 \<le> activeCount (launch s)"
        "\<not> (activeCount (launch s) = 0 \<and> queue (launch s) = [])"
        using a by (auto simp: launch_def split: prod.splits)
      ultimately show False using step(1) by blast
    qed
  qed
  with y assms show False by blast
qed

subsection \<open>The bookkeeping invariants hold in every run\<close>

lemma launch_simps [simp]:
  "activeCount (launch s) = activeCount s + 1"
  "length (microtasks (launch s)) = Suc (length (microtasks s))"
  "inflight (launch s) = inflight s"
  "completed (launch s) = completed s"
  "settled (launch s) = settled s"
  "result (launch s) = result s"
  "logged (launch s) = logged s"
  by (simp_all add: launch_def split: prod.splits)

lemma tick_tinv:
  assumes "tick par s = Some s'" and "tick_inv par s"
  shows "tick_inv par s'"
  using assms
proof (induction rule: tick_induct)
  case (stop s)
  then show ?case by simp
next
  case (resolve s)
  then show ?case by (simp add: tick_inv_def)
next
  case (launch s s')
  from launch(1,2,6) have "tick_inv par (launch s)"
    by (auto simp: tick_inv_def)
  with launch(5) show ?case by simp
qed

lemma onRejected_simps [simp]:
  "activeCount (onRejected e s) = activeCount s - 1"
  "microtasks (onRejected e s) = microtasks s"
  "inflight (onRejected e s) = inflight s"
  "queue (onRejected e s) = queue s"
  "result (onRejected e s) = result s"
  "logged (onRejected e s) = logged s"
  "completed (onRejected e s)"
  "settled (onRejected e s) = (if completed s then settled s else settled s @ [Reject e])"
  by (simp_all add: onRejected_def)

lemma run_microtask_simps [simp]:
  "microtasks (run_microtask s m) = microtasks s"
  "queue (run_microtask s m) = queue s"
  "result (run_microtask s m) = result s"
  "logged (run_microtask s m) = logged s"
  by (cases m; simp)+

lemma foldl_run_microtask_inv:
  "pending_inv par ms s \<Longrightarrow> turn_inv par (foldl run_microtask s ms)"
proof (induction ms arbitrary: s)
  case Nil
  then show ?case by (auto simp: pending_inv_def turn_inv_def tick_inv_def)
next
  case (Cons m ms)
  have "pending_inv par ms (run_microtask s m)"
    using Cons.prems by (cases m) (auto simp: pending_inv_def)
  then show ?case using Cons.IH by simp
qed

lemma drain_inv: "tick_inv par s \<Longrightarrow> turn_inv par (drain s)"
  unfolding drain_def by (rule foldl_run_microtask_inv) (auto simp: pending_inv_def tick_inv_def)

lemma call_debugLog_frame:
  assumes "call_debugLog dbg a b c s = (r, s1)"
  shows "activeCount s1 = activeCount s \<and> microtasks s1 = microtasks s \<and>
         inflight s1 = inflight s \<and> completed s1 = completed s \<and> settled s1 = settled s \<and>
         queue s1 = queue s \<and> result s1 = result s"
  using assms by (auto simp: call_debugLog_def split: option.splits)

lemma foldl_enqueueStat:
  "foldl (\<lambda>s' f. enqueueStat (g f) s') s ns =
     s\<lparr>queue := queue s @ map (\<lambda>f. \<lparr>path = g f, exec = StatOp\<rparr>) ns\<rparr>"
proof (induction ns arbitrary: s)
  case Nil
  show ?case by simp
next
  case (Cons n ns)
  show ?case unfolding foldl_Cons Cons.IH by (simp add: enqueueStat_def)
qed

lemma exec_op_frame:
  assumes "exec_op fs dbg x s = (r, s1)"
  shows "activeCount s1 = activeCount s \<and> microtasks s1 = microtasks s \<and>
         inflight s1 = inflight s \<and> completed s1 = completed s \<and> settled s1 = settled s"
proof (cases "exec x")
  case StatOp
  with assms show ?thesis
    by (auto simp: exec_op_def statOp_def enqueueRead_def split: sum.splits if_splits
             dest!: call_debugLog_frame)
next
  case ReadOp
  with assms show ?thesis
    by (auto simp: exec_op_def readOp_def foldl_enqueueStat
             split: sum.splits prod.splits option.splits dest!: call_debugLog_frame)
qed

lemma complete_inv:
  assumes "complete fs par dbg i s = Some s'" and "turn_inv par s"
  shows "turn_inv par s'"
proof (cases "i < length (inflight s)")
  case False
  with assms show ?thesis by (simp add: complete_def)
next
  case True
  define s0 where "s0 = s\<lparr>inflight := take i (inflight s) @ drop (Suc i) (inflight s)\<rparr>"
  obtain r s1 where ex: "exec_op fs dbg (inflight s ! i) s0 = (r, s1)" by force
  note fr = exec_op_frame[OF ex]
  have len: "int (length (inflight s0)) = int (length (inflight s)) - 1"
    using True by (simp add: s0_def)
  have pre: "tick_inv par (s1\<lparr>activeCount := activeCount s1 - 1\<rparr>)"
    using assms(2) fr len by (auto simp: turn_inv_def tick_inv_def s0_def)
  show ?thesis
  proof (cases r)
    case None
    with assms(1) True ex obtain s2 where
      t: "tick par (s1\<lparr>activeCount := activeCount s1 - 1\<rparr>) = Some s2" and s': "s' = drain s2"
      by (auto simp: complete_def s0_def onFulfilled_def)
    from tick_tinv[OF t pre] show ?thesis unfolding s' by (rule drain_inv)
  next
    case (Some e)
    with assms(1) True ex have s': "s' = onRejected e s1"
      by (auto simp: complete_def s0_def)
    show ?thesis unfolding s' using assms(2) fr len
      by (auto simp: turn_inv_def tick_inv_def s0_def)
  qed
qed

lemma events_inv:
  "events fs par dbg sched s = Some s' \<Longrightarrow> turn_inv par s \<Longrightarrow> turn_inv par s'"
proof (induction sched arbitrary: s)
  case Nil
  then show ?case by simp
next
  case (Cons i sched)
  from Cons.prems(1) obtain s1 where c: "complete fs par dbg i s = Some s1"
    and e: "events fs par dbg sched s1 = Some s'"
    by (simp split: option.splits)
  from complete_inv[OF c Cons.prems(2)] Cons.IH[OF e] show ?case by blast
qed

lemma diskUsage_inv:
  assumes "diskUsage fs p par dbg = Some s"
  shows "turn_inv par s"
proof -
  from assms obtain s2 where t: "tick par (enqueueStat p (init fs p par)) = Some s2"
    and s: "s = drain s2"
    by (auto simp: diskUsage_def)
  have "tick_inv par (enqueueStat p (init fs p par))"
    by (simp add: tick_inv_def enqueueStat_def init_def)
  from tick_tinv[OF t this] show ?thesis unfolding s by (rule drain_inv)
qed

lemma run_inv:
  "run fs p par dbg sched = Some s \<Longrightarrow> turn_inv par s"
  by (auto simp: run_def split: option.splits dest: diskUsage_inv events_inv)

subsection \<open>After the promise is settled\<close>

lemma foldl_run_microtask_completed:
  "completed s \<Longrightarrow>
   completed (foldl run_microtask s ms) \<and> settled (foldl run_microtask s ms) = settled s \<and>
   length (inflight (foldl run_microtask s ms)) \<le> length (inflight s) + length ms"
proof (induction ms arbitrary: s)
  case Nil
  then show ?case by simp
next
  case (Cons m ms)
  have c: "completed (run_microtask s m)" and st: "settled (run_microtask s m) = settled s"
    and l: "length (inflight (run_microtask s m)) \<le> Suc (length (inflight s))"
    using Cons.prems by (cases m; simp)+
  from Cons.IH[OF c] st l show ?case by simp
qed

lemma complete_completed:
  assumes "completed s" and "microtasks s = []"
  shows "\<exists>s'. complete fs par dbg i s = Some s' \<and> completed s' \<and> settled s' = settled s \<and>
           microtasks s' = [] \<and> length (inflight s') \<le> length (inflight s)"
proof (cases "i < length (inflight s)")
  case False
  with assms show ?thesis by (simp add: complete_def)
next
  case True
  define s0 where "s0 = s\<lparr>inflight := take i (inflight s) @ drop (Suc i) (inflight s)\<rparr>"
  obtain r s1 where ex: "exec_op fs dbg (inflight s ! i) s0 = (r, s1)" by force
  note fr = exec_op_frame[OF ex]
  have len: "length (inflight s0) \<le> length (inflight s)"
    by (simp add: s0_def)
  show ?thesis
  proof (cases r)
    case None
    have t: "tick par (s1\<lparr>activeCount := activeCount s1 - 1\<rparr>) = Some (s1\<lparr>activeCount := activeCount s1 - 1\<rparr>)"
      using fr assms by (simp add: tick_completed s0_def)
    have d: "drain (s1\<lparr>activeCount := activeCount s1 - 1\<rparr>) = s1\<lparr>activeCount := activeCount s1 - 1\<rparr>"
      using fr assms by (simp add: drain_def s0_def)
    have "complete fs par dbg i s = Some (s1\<lparr>activeCount := activeCount s1 - 1\<rparr>)"
      using True ex None t d by (simp add: complete_def s0_def[symmetric] onFulfilled_def)
    then show ?thesis using fr assms len by (simp add: s0_def)
  next
    case (Some e)
    then have "complete fs par dbg i s = Some (onRejected e s1)"
      using True ex by (simp add: complete_def s0_def[symmetric])
    then show ?thesis using fr assms len by (simp add: s0_def)
  qed
qed

lemma events_completed:
  assumes "completed s" and "microtasks s = []"
  shows "\<exists>s'. events fs par dbg sched s = Some s' \<and> completed s' \<and> settled s' = settled s \<and>
           microtasks s' = [] \<and> length (inflight s') \<le> length (inflight s)"
  using assms
proof (induction sched arbitrary: s)
  case Nil
  then show ?case by simp
next
  case (Cons i sched)
  from complete_completed[OF Cons.prems, of fs par dbg i] obtain s1 where
    s1: "complete fs par dbg i s = Some s1" "completed s1" "settled s1 = settled s"
      "microtasks s1 = []" "length (inflight s1) \<le> length (inflight s)" by blast
  from Cons.IH[OF s1(2) s1(4)] obtain s' where
    "events fs par dbg sched s1 = Some s'" "completed s'" "settled s' = settled s1"
      "microtasks s' = []" "length (inflight s') \<le> length (inflight s1)" by blast
  with s1 show ?case by simp
qed

subsection \<open>A limit above one\<close>

lemma tick_fills:
  assumes "\<not> completed s" "queue s = []" "0 < activeCount s" "activeCount s \<le> par"
  shows "tick par s =
           Some (s\<lparr>activeCount := par,
                   microtasks := microtasks s @ replicate (nat (par - activeCount s)) None\<rparr>)"
  using assms
proof (induction "nat (par - activeCount s)" arbitrary: s)
  case 0
  then have "par = activeCount s" by simp
  with 0 show ?case using tick.simps[of par s] by simp
next
  case (Suc n)
  from Suc(2) have lt: "activeCount s < par" by simp
  have l: "launch s = s\<lparr>activeCount := activeCount s + 1, microtasks := microtasks s @ [None]\<rparr>"
    using Suc.prems by (simp add: launch_def pop_def)
  have n: "n = nat (par - activeCount (launch s))" using Suc(2) by (simp add: l)
  have "tick par (launch s) =
          Some ((launch s)\<lparr>activeCount := par,
                   microtasks := microtasks (launch s) @ replicate (nat (par - activeCount (launch s))) None\<rparr>)"
    by (rule Suc(1)[OF n]) (use Suc.prems lt in \<open>simp_all add: l\<close>)
  moreover have "nat (par - activeCount s) = Suc (nat (par - activeCount (launch s)))"
    using Suc(2) n by simp
  ultimately have "tick par (launch s) =
          Some (s\<lparr>activeCount := par,
                   microtasks := microtasks s @ replicate (nat (par - activeCount s)) None\<rparr>)"
    by (simp add: l replicate_app_Cons_same)
  then show ?case using tick.simps[of par s] Suc.prems lt by simp
qed

lemma foldl_run_microtask_undefined:
  "settled (foldl run_microtask s (replicate k None)) =
     (if completed s \<or> k = 0 then settled s else settled s @ [Reject TypeError]) \<and>
   (completed (foldl run_microtask s (replicate k None)) \<longleftrightarrow> completed s \<or> 0 < k) \<and>
   microtasks (foldl run_microtask s (replicate k None)) = microtasks s"
proof (induction k arbitrary: s)
  case 0
  show ?case by simp
next
  case (Suc k)
  show ?case using Suc[of "onRejected TypeError s"] by simp
qed

lemma diskUsage_limit_above_one:
  assumes "2 \<le> par"
  shows "\<exists>s. diskUsage fs p par dbg = Some s \<and> completed s \<and> microtasks s = [] \<and>
           settled s = [Reject TypeError]"
proof -
  let ?x = "\<lparr>path = p, exec = StatOp\<rparr>"
  let ?s0 = "enqueueStat p (init fs p par)"
  let ?s1 = "(init fs p par)\<lparr>activeCount := 1, microtasks := [Some ?x]\<rparr>"
  have l: "launch ?s0 = ?s1"
    by (simp add: launch_def pop_def enqueueStat_def init_def)
  have "tick par ?s0 = tick par (launch ?s0)"
    using tick.simps[of par ?s0] assms by (simp add: enqueueStat_def init_def)
  also have "\<dots> = Some (?s1\<lparr>activeCount := par,
       microtasks := microtasks ?s1 @ replicate (nat (par - activeCount ?s1)) None\<rparr>)"
    unfolding l by (rule tick_fills) (use assms in \<open>simp_all add: init_def\<close>)
  finally have t: "tick par ?s0 = Some (?s1\<lparr>activeCount := par,
       microtasks := Some ?x # replicate (nat (par - 1)) None\<rparr>)"
    by simp
  let ?s2 = "(init fs p par)\<lparr>activeCount := par, inflight := [?x]\<rparr>"
  have d: "diskUsage fs p par dbg = Some (foldl run_microtask ?s2 (replicate (nat (par - 1)) None))"
    unfolding diskUsage_def t by (simp add: drain_def init_def)
  have "\<not> completed ?s2" "settled ?s2 = []" "microtasks ?s2 = []" "0 < nat (par - 1)"
    using assms by (simp_all add: init_def)
  with foldl_run_microtask_undefined[of ?s2 "nat (par - 1)"] d show ?thesis
    by simp
qed

lemma run_limit_above_one_rejects:
  assumes "2 \<le> par"
  shows "\<exists>s. run fs p par dbg sched = Some s \<and> settled s = [Reject TypeError]"
proof -
  from diskUsage_limit_above_one[OF assms, of fs p dbg] obtain s0 where
    d: "diskUsage fs p par dbg = Some s0" and c: "completed s0" "microtasks s0 = []"
    and st: "settled s0 = [Reject TypeError]" by blast
  from events_completed[OF c, of fs par dbg sched] obtain s where
    "events fs par dbg sched s0 = Some s" "settled s = settled s0" by blast
  with d st show ?thesis by (simp add: run_def)
qed

subsection \<open>The report carries the totals of the tree\<close>

lemma represents_unique:
  "represents fs p t \<Longrightarrow> represents fs p t' \<Longrightarrow> t = t'"
proof (induction t arbitrary: p t')
  case (FileN n)
  then show ?case by (cases t') (auto split: sum.splits)
next
  case OtherN
  then show ?case by (cases t') (auto split: sum.splits)
next
  case (DirN kids)
  from DirN.prems obtain kids' where t': "t' = DirN kids'"
    by (cases t') (auto split: sum.splits)
  from DirN.prems have names: "map fst kids = map fst kids'"
    and all: "list_all (\<lambda>(name, k). represents fs (resolve fs [p, name]) k) kids"
    and all': "list_all (\<lambda>(name, k). represents fs (resolve fs [p, name]) k) kids'"
    by (auto simp: t')
  from names have len: "length kids = length kids'"
    by (metis length_map)
  have "kids ! i = kids' ! i" if i: "i < length kids" for i
  proof -
    obtain n k where nk: "kids ! i = (n, k)" by (cases "kids ! i")
    obtain n' k' where nk': "kids' ! i = (n', k')" by (cases "kids' ! i")
    have "map fst kids ! i = map fst kids' ! i" using names by simp
    with i len nk nk' have n: "n' = n" by simp
    have mem: "(n, k) \<in> set kids" using i nk by (metis nth_mem)
    have mem': "(n, k') \<in> set kids'" using i len nk' n by (metis nth_mem)
    from all mem have r: "represents fs (resolve fs [p, n]) k"
      by (auto simp: list_all_iff)
    from all' mem' have r': "represents fs (resolve fs [p, n]) k'"
      by (auto simp: list_all_iff)
    have "k = k'" by (rule DirN.IH[OF mem _ r r']) simp
    with nk nk' n show ?thesis by simp
  qed
  with len have "kids = kids'" by (simp add: list_eq_iff_nth_eq)
  then show ?case by (simp add: t')
qed

lemma the_node_eq: "represents fs p t \<Longrightarrow> the_node fs p = t"
  unfolding the_node_def by (rule the_equality) (auto dest: represents_unique)

lemma weight_simps:
  "weight a b c (FileN n) = b + c * n"
  "weight a b c OtherN = 0"
  by (simp_all add: weight_def)

lemma sum_list_weight:
  "sum_list (map (\<lambda>(name, k). weight a b c k) kids) =
     a * sum_list (map (\<lambda>(name, k). count_dirs k) kids) +
     b * sum_list (map (\<lambda>(name, k). count_files k) kids) +
     c * sum_list (map (\<lambda>(name, k). total_size k) kids)"
  by (induction kids) (auto simp: weight_def algebra_simps)

lemma weight_DirN:
  "weight a b c (DirN kids) = a + sum_list (map (\<lambda>(name, k). weight a b c k) kids)"
  unfolding sum_list_weight by (simp add: weight_def algebra_simps)

lemma statOp_acct:
  assumes ok: "statOp fs dbg x s = (None, s1)" and rep: "represents fs (path x) t"
  shows "credit a b c (result s1) + sum_list (map (owed a b c fs) (queue s1)) =
           credit a b c (result s) + sum_list (map (owed a b c fs) (queue s)) + weight a b c t \<and>
         (\<forall>y \<in> set (queue s1). y \<in> set (queue s) \<or> known fs y)"
proof (cases t)
  case (FileN n)
  with rep obtain st where st: "asyncStat fs (path x) = Inr st" "\<not> isDirectory st" "isFile st"
    "st_size st = n" by (auto split: sum.splits)
  from ok st have "call_debugLog dbg ''STAT'' (path x) (string_of_nat (st_size st) @ '' bytes'')
      (s\<lparr>result := (result s)\<lparr>files := files (result s) + 1,
                                 rsize := rsize (result s) + st_size st\<rparr>\<rparr>) = (None, s1)"
    by (simp add: statOp_def)
  from call_debugLog_frame[OF this] st FileN show ?thesis
    by (simp add: credit_def weight_def algebra_simps)
next
  case OtherN
  with rep obtain st where st: "asyncStat fs (path x) = Inr st" "\<not> isDirectory st" "\<not> isFile st"
    by (auto split: sum.splits)
  from ok st have "call_debugLog dbg ''STAT'' (path x) ''---'' s = (None, s1)"
    by (simp add: statOp_def)
  from call_debugLog_frame[OF this] OtherN show ?thesis
    by (simp add: weight_def)
next
  case (DirN kids)
  with rep obtain st where st: "asyncStat fs (path x) = Inr st" "isDirectory st"
    by (auto split: sum.splits)
  let ?rd = "\<lparr>path = path x, exec = ReadOp\<rparr>"
  from ok st have "call_debugLog dbg ''STAT'' (path x) ''DIR''
      (enqueueRead (path x)
         (s\<lparr>result := (result s)\<lparr>directories := directories (result s) + 1\<rparr>\<rparr>)) = (None, s1)"
    by (simp add: statOp_def)
  from call_debugLog_frame[OF this]
  have q: "queue s1 = queue s @ [?rd]"
    and r: "result s1 = (result s)\<lparr>directories := directories (result s) + 1\<rparr>"
    by (simp_all add: enqueueRead_def)
  have n: "the_node fs (path x) = DirN kids" using rep DirN by (simp add: the_node_eq)
  have o: "owed a b c fs ?rd = sum_list (map (\<lambda>(name, k). weight a b c k) kids)"
    by (simp add: owed_def n)
  have k: "known fs ?rd" using rep DirN
    by (auto simp: known_def simp del: represents.simps)
  show ?thesis unfolding q r using o k DirN
    by (auto simp: credit_def weight_DirN algebra_simps)
qed

lemma sum_list_owed_children:
  assumes "list_all (\<lambda>(name, k). represents fs (resolve fs [p, name]) k) kids"
  shows "sum_list (map (owed a b c fs)
            (map (\<lambda>f. \<lparr>path = resolve fs [p, f], exec = StatOp\<rparr>) (map fst kids))) =
         sum_list (map (\<lambda>(name, k). weight a b c k) kids)"
  using assms
proof (induction kids)
  case Nil
  show ?case by simp
next
  case (Cons nk kids)
  obtain n k where nk: "nk = (n, k)" by (cases nk)
  from Cons.prems nk have "represents fs (resolve fs [p, n]) k" by simp
  then have "owed a b c fs \<lparr>path = resolve fs [p, n], exec = StatOp\<rparr> = weight a b c k"
    by (simp add: owed_def the_node_eq)
  with Cons nk show ?case by simp
qed

lemma readOp_acct:
  assumes ok: "readOp fs dbg x s = (None, s1)" and rep: "represents fs (path x) (DirN kids)"
  shows "credit a b c (result s1) + sum_list (map (owed a b c fs) (queue s1)) =
           credit a b c (result s) + sum_list (map (owed a b c fs) (queue s)) +
           sum_list (map (\<lambda>(name, k). weight a b c k) kids) \<and>
         (\<forall>y \<in> set (queue s1). y \<in> set (queue s) \<or> known fs y)"
proof -
  from rep have rd: "asyncReaddir fs (path x) = Inr (map fst kids)"
    and all: "list_all (\<lambda>(name, k). represents fs (resolve fs [path x, name]) k) kids"
    by simp_all
  from ok rd obtain s0 where
    c: "call_debugLog dbg ''READ'' (path x) (string_of_nat (length (map fst kids)) @ '' items'') s
          = (None, s0)"
    and s1: "s1 = foldl (\<lambda>s' file. enqueueStat (resolve fs [path x, file]) s') s0 (map fst kids)"
    by (auto simp: readOp_def split: prod.splits option.splits)
  note fr = call_debugLog_frame[OF c]
  let ?new = "map (\<lambda>f. \<lparr>path = resolve fs [path x, f], exec = StatOp\<rparr>) (map fst kids)"
  have q: "queue s1 = queue s @ ?new" and r: "result s1 = result s"
    unfolding s1 foldl_enqueueStat using fr by simp_all
  have kn: "known fs y" if "y \<in> set ?new" for y
  proof -
    from that obtain n k where "(n, k) \<in> set kids" "y = \<lparr>path = resolve fs [path x, n], exec = StatOp\<rparr>"
      by auto
    with all show ?thesis by (auto simp: known_def list_all_iff)
  qed
  show ?thesis unfolding q r using sum_list_owed_children[OF all, of a b c] kn
    by auto
qed

lemma exec_op_acct:
  assumes ok: "exec_op fs dbg x s = (None, s1)" and kn: "known fs x"
  shows "credit a b c (result s1) + sum_list (map (owed a b c fs) (queue s1)) =
           credit a b c (result s) + sum_list (map (owed a b c fs) (queue s)) + owed a b c fs x \<and>
         (\<forall>y \<in> set (queue s1). y \<in> set (queue s) \<or> known fs y)"
proof (cases "exec x")
  case StatOp
  from kn obtain t where t: "represents fs (path x) t" by (auto simp: known_def)
  from ok StatOp have "statOp fs dbg x s = (None, s1)" by (simp add: exec_op_def)
  from statOp_acct[OF this t, of a b c] StatOp the_node_eq[OF t] show ?thesis
    by (simp add: owed_def)
next
  case ReadOp
  with kn obtain kids where t: "represents fs (path x) (DirN kids)" by (auto simp: known_def)
  from ok ReadOp have "readOp fs dbg x s = (None, s1)" by (simp add: exec_op_def)
  from readOp_acct[OF this t, of a b c] ReadOp the_node_eq[OF t] show ?thesis
    by (simp add: owed_def)
qed

lemma launched_append: "launched (ms @ ms') = launched ms @ launched ms'"
  by (induction ms rule: launched.induct) simp_all

lemma acct_cong:
  assumes "set ops = set ops'"
    and "\<And>a b c. sum_list (map (owed a b c fs) ops) = sum_list (map (owed a b c fs) ops')"
  shows "acct fs T ops r = acct fs T ops' r"
  using assms by (simp add: acct_def)

lemma totals_inv_cong:
  assumes "set ops = set ops'"
    and "\<And>a b c. sum_list (map (owed a b c fs) ops) = sum_list (map (owed a b c fs) ops')"
    and "settled s' = settled s" and "result s' = result s"
  shows "totals_inv fs T ops' s' = totals_inv fs T ops s"
  using acct_cong[OF assms(1,2)] assms(3,4) by (simp add: totals_inv_def)

lemma totals_inv_settled:
  assumes "settled s \<noteq> []" and "settled s' = settled s"
  shows "totals_inv fs T ops' s' = totals_inv fs T ops s"
  using assms by (simp add: totals_inv_def)

lemma pending_launch:
  "set (pending (launch s)) = set (pending s) \<and>
   sum_list (map f (pending (launch s))) = sum_list (map (f :: op \<Rightarrow> nat) (pending s))"
proof (cases "queue s = []")
  case True
  then show ?thesis by (simp add: pending_def launch_def pop_def launched_append)
next
  case False
  then have q: "queue s = butlast (queue s) @ [last (queue s)]" by simp
  have "pending (launch s) =
          butlast (queue s) @ (launched (microtasks s) @ [last (queue s)]) @ inflight s"
    using False by (simp add: pending_def launch_def pop_def launched_append)
  moreover have "pending s =
          (butlast (queue s) @ [last (queue s)]) @ launched (microtasks s) @ inflight s"
    using q by (simp add: pending_def)
  ultimately show ?thesis by (auto simp: ac_simps)
qed

lemma launch_tick_inv:
  assumes "tick_inv par s" "\<not> completed s" "\<not> (par \<noteq> 0 \<and> par \<le> activeCount s)"
  shows "tick_inv par (launch s)"
  using assms by (auto simp: tick_inv_def)

lemma tick_totals:
  assumes "tick par s = Some s'" and "tick_inv par s" and "totals_inv fs T (pending s) s"
  shows "totals_inv fs T (pending s') s'"
  using assms
proof (induction rule: tick_induct)
  case (stop s)
  then show ?case by simp
next
  case (resolve s)
  from resolve(1,5) have st: "settled s = []" by (simp add: tick_inv_def)
  from resolve(3,5) have "int (length (microtasks s)) + int (length (inflight s)) = 0"
    by (simp add: tick_inv_def)
  then have "length (microtasks s) = 0 \<and> length (inflight s) = 0" by linarith
  then have "microtasks s = []" "inflight s = []" by simp_all
  with resolve(4) have "pending s = []" by (simp add: pending_def)
  with resolve(6) st have "\<forall>a b c. credit a b c (result s) = weight a b c T"
    by (simp add: totals_inv_def acct_def)
  then show ?case using st by (simp add: totals_inv_def)
next
  case (launch s s')
  have ti: "tick_inv par (launch s)"
    using launch(1,2,6) by (rule launch_tick_inv[rotated])
  have "totals_inv fs T (pending (launch s)) (launch s) = totals_inv fs T (pending s) s"
    by (rule totals_inv_cong) (simp_all add: pending_launch)
  with launch(7) have "totals_inv fs T (pending (launch s)) (launch s)" by simp
  from launch(5)[OF ti this] show ?case .
qed

lemma foldl_run_microtask_totals:
  assumes "totals_inv fs T (queue s @ launched ms @ inflight s) s"
    and "completed s \<longleftrightarrow> settled s \<noteq> []"
  shows "totals_inv fs T (queue (foldl run_microtask s ms) @ inflight (foldl run_microtask s ms))
           (foldl run_microtask s ms)"
  using assms
proof (induction ms arbitrary: s)
  case Nil
  then show ?case by simp
next
  case (Cons m ms)
  show ?case
  proof (cases m)
    case (Some x)
    have "totals_inv fs T (queue (run_microtask s m) @ launched ms @ inflight (run_microtask s m))
            (run_microtask s m) = totals_inv fs T (queue s @ launched (m # ms) @ inflight s) s"
      by (rule totals_inv_cong) (auto simp: Some)
    with Cons.prems have "totals_inv fs T
        (queue (run_microtask s m) @ launched ms @ inflight (run_microtask s m)) (run_microtask s m)"
      by simp
    moreover have "completed (run_microtask s m) \<longleftrightarrow> settled (run_microtask s m) \<noteq> []"
      using Cons.prems(2) by (simp add: Some)
    ultimately show ?thesis using Cons.IH by simp
  next
    case None
    have "totals_inv fs T (queue (run_microtask s m) @ launched ms @ inflight (run_microtask s m))
            (run_microtask s m)"
    proof (cases "settled s = []")
      case True
      then show ?thesis using Cons.prems(2) by (simp add: None totals_inv_def)
    next
      case False
      then have "settled (run_microtask s m) = settled s"
        using Cons.prems(2) by (simp add: None)
      from totals_inv_settled[OF False this] Cons.prems(1) show ?thesis by blast
    qed
    moreover have "completed (run_microtask s m) \<longleftrightarrow> settled (run_microtask s m) \<noteq> []"
      using Cons.prems(2) by (simp add: None)
    ultimately show ?thesis using Cons.IH by simp
  qed
qed

lemma drain_totals:
  assumes "tick_inv par s" and "totals_inv fs T (pending s) s"
  shows "totals_inv fs T (pending (drain s)) (drain s)"
proof -
  let ?s0 = "s\<lparr>microtasks := []\<rparr>"
  have "totals_inv fs T (queue ?s0 @ launched (microtasks s) @ inflight ?s0) ?s0
          = totals_inv fs T (pending s) s"
    by (rule totals_inv_cong) (simp_all add: pending_def)
  with assms(2) have a: "totals_inv fs T (queue ?s0 @ launched (microtasks s) @ inflight ?s0) ?s0"
    by simp
  have b: "completed ?s0 \<longleftrightarrow> settled ?s0 \<noteq> []" using assms(1) by (simp add: tick_inv_def)
  have m: "microtasks (drain s) = []"
    using drain_inv[OF assms(1)] by (simp add: turn_inv_def)
  from foldl_run_microtask_totals[OF a b] m show ?thesis
    by (simp add: drain_def pending_def)
qed

lemma complete_totals:
  assumes c: "complete fs par dbg i s = Some s'" and ti: "turn_inv par s"
    and tot: "totals_inv fs T (pending s) s"
  shows "totals_inv fs T (pending s') s'"
proof (cases "i < length (inflight s)")
  case False
  with c tot show ?thesis by (simp add: complete_def)
next
  case True
  define x where "x = inflight s ! i"
  define s0 where "s0 = s\<lparr>inflight := take i (inflight s) @ drop (Suc i) (inflight s)\<rparr>"
  obtain r s1 where ex: "exec_op fs dbg x s0 = (r, s1)" by force
  note fr = exec_op_frame[OF ex]
  have m: "microtasks s = []" using ti by (simp add: turn_inv_def)
  have infl: "inflight s = take i (inflight s) @ x # drop (Suc i) (inflight s)"
    unfolding x_def using True by (rule id_take_nth_drop)
  have ps: "set (pending s) = insert x (set (pending s0))"
    "\<And>f :: op \<Rightarrow> nat. sum_list (map f (pending s)) = f x + sum_list (map f (pending s0))"
  proof -
    have "pending s = queue s @ take i (inflight s) @ x # drop (Suc i) (inflight s)"
      using infl m by (simp add: pending_def)
    moreover have "pending s0 = queue s @ take i (inflight s) @ drop (Suc i) (inflight s)"
      using m by (simp add: pending_def s0_def)
    ultimately show "set (pending s) = insert x (set (pending s0))"
      "\<And>f :: op \<Rightarrow> nat. sum_list (map f (pending s)) = f x + sum_list (map f (pending s0))"
      by auto
  qed
  have len: "int (length (inflight s0)) = int (length (inflight s)) - 1"
    using True by (simp add: s0_def)
  show ?thesis
  proof (cases r)
    case (Some e)
    with c True ex have s': "s' = onRejected e s1"
      by (simp add: complete_def s0_def x_def)
    show ?thesis
    proof (cases "settled s = []")
      case True
      then have "settled s' = [Reject e]" using fr ti
        by (simp add: s' s0_def turn_inv_def tick_inv_def)
      then show ?thesis by (simp add: totals_inv_def)
    next
      case False
      then have "settled s' = settled s" using fr ti
        by (simp add: s' s0_def turn_inv_def tick_inv_def)
      from totals_inv_settled[OF False this] tot show ?thesis by blast
    qed
  next
    case None
    let ?s2 = "s1\<lparr>activeCount := activeCount s1 - 1\<rparr>"
    from None c True ex obtain s3 where
      t: "tick par ?s2 = Some s3" and s': "s' = drain s3"
      by (auto simp: complete_def s0_def x_def onFulfilled_def)
    have pre: "tick_inv par ?s2"
      using ti fr len by (auto simp: turn_inv_def tick_inv_def s0_def)
    have tot1: "totals_inv fs T (pending s1) s1"
    proof (cases "settled s = []")
      case False
      have "settled s1 = settled s" using fr by (simp add: s0_def)
      from totals_inv_settled[OF False this] tot show ?thesis by blast
    next
      case True
      with tot have a: "acct fs T (pending s) (result s)" by (simp add: totals_inv_def)
      then have kx: "known fs x" using ps(1) by (simp add: acct_def)
      have p1: "pending s1 = queue s1 @ inflight s0"
        using fr m by (simp add: pending_def s0_def)
      have p0: "pending s0 = queue s0 @ inflight s0"
        using m by (simp add: pending_def s0_def)
      have "acct fs T (pending s1) (result s1)"
        unfolding acct_def
      proof (intro conjI ballI allI)
        fix y assume "y \<in> set (pending s1)"
        then have "y \<in> set (queue s1) \<or> y \<in> set (inflight s0)" by (simp add: p1)
        then show "known fs y"
        proof
          assume "y \<in> set (queue s1)"
          with exec_op_acct[OF ex[unfolded None] kx, of 0 0 0]
          have "y \<in> set (queue s0) \<or> known fs y" by blast
          then show ?thesis using a ps(1) p0 by (auto simp: acct_def)
        next
          assume "y \<in> set (inflight s0)"
          then show ?thesis using a ps(1) p0 by (auto simp: acct_def)
        qed
      next
        fix a' b' c'
        from exec_op_acct[OF ex[unfolded None] kx, of a' b' c']
        have e: "credit a' b' c' (result s1) + sum_list (map (owed a' b' c' fs) (queue s1)) =
           credit a' b' c' (result s0) + sum_list (map (owed a' b' c' fs) (queue s0)) +
           owed a' b' c' fs x" by blast
        from a have "credit a' b' c' (result s) + sum_list (map (owed a' b' c' fs) (pending s)) =
           weight a' b' c' T" by (simp add: acct_def)
        then have "credit a' b' c' (result s0) +
            (owed a' b' c' fs x + sum_list (map (owed a' b' c' fs) (pending s0))) = weight a' b' c' T"
          unfolding ps(2) by (simp add: s0_def)
        with e show "credit a' b' c' (result s1) + sum_list (map (owed a' b' c' fs) (pending s1)) =
           weight a' b' c' T"
          unfolding p1 p0 by simp
      qed
      then show ?thesis using True fr by (simp add: totals_inv_def s0_def)
    qed
    have "totals_inv fs T (pending ?s2) ?s2 = totals_inv fs T (pending s1) s1"
      by (rule totals_inv_cong) (simp_all add: pending_def)
    with tot1 have tot2: "totals_inv fs T (pending ?s2) ?s2" by simp
    from tick_totals[OF t pre tot2] tick_tinv[OF t pre] show ?thesis
      unfolding s' by (intro drain_totals)
  qed
qed

lemma events_totals:
  "events fs par dbg sched s = Some s' \<Longrightarrow> turn_inv par s \<Longrightarrow>
   totals_inv fs T (pending s) s \<Longrightarrow> totals_inv fs T (pending s') s'"
proof (induction sched arbitrary: s)
  case Nil
  then show ?case by simp
next
  case (Cons i sched)
  from Cons.prems(1) obtain s1 where c: "complete fs par dbg i s = Some s1"
    and e: "events fs par dbg sched s1 = Some s'"
    by (simp split: option.splits)
  from Cons.IH[OF e complete_inv[OF c Cons.prems(2)] complete_totals[OF c Cons.prems(2,3)]]
  show ?case .
qed

lemma diskUsage_totals:
  assumes d: "diskUsage fs p par dbg = Some s" and rep: "represents fs p T"
  shows "totals_inv fs T (pending s) s"
proof -
  let ?s0 = "enqueueStat p (init fs p par)"
  from d obtain s2 where t: "tick par ?s0 = Some s2" and s: "s = drain s2"
    by (auto simp: diskUsage_def)
  have ti: "tick_inv par ?s0"
    by (simp add: tick_inv_def enqueueStat_def init_def)
  have p: "pending ?s0 = [\<lparr>path = p, exec = StatOp\<rparr>]"
    by (simp add: pending_def enqueueStat_def init_def)
  have "known fs \<lparr>path = p, exec = StatOp\<rparr>" using rep
    by (auto simp: known_def simp del: represents.simps)
  moreover have "owed a b c fs \<lparr>path = p, exec = StatOp\<rparr> = weight a b c T" for a b c
    using the_node_eq[OF rep] by (simp add: owed_def)
  moreover have "credit a b c (result ?s0) = 0" for a b c
    by (simp add: credit_def enqueueStat_def init_def)
  moreover have "settled ?s0 = []"
    by (simp add: enqueueStat_def init_def)
  ultimately have "totals_inv fs T (pending ?s0) ?s0"
    unfolding p by (simp add: totals_inv_def acct_def)
  from tick_totals[OF t ti this] tick_tinv[OF t ti] show ?thesis
    unfolding s by (intro drain_totals)
qed

lemma report_totals:
  assumes "run fs p par dbg sched = Some s" and "represents fs p T"
    and "Resolve r \<in> set (settled s)"
  shows "directories r = count_dirs T \<and> files r = count_files T \<and> rsize r = total_size T"
proof -
  from assms(1) obtain s0 where d: "diskUsage fs p par dbg = Some s0"
    and e: "events fs par dbg sched s0 = Some s"
    by (auto simp: run_def split: option.splits)
  from events_totals[OF e diskUsage_inv[OF d] diskUsage_totals[OF d assms(2)]] assms(3)
  have w: "credit a b c r = weight a b c T" for a b c
    by (simp add: totals_inv_def)
  from w[of 1 0 0] w[of 0 1 0] w[of 0 0 1] show ?thesis
    by (simp add: credit_def weight_def)
qed

subsection \<open>A callback that returns is not observed\<close>

lemma erase_log_simps [simp]:
  "completed (erase_log s) = completed s"
  "activeCount (erase_log s) = activeCount s"
  "queue (erase_log s) = queue s"
  "settled (erase_log s) = settled s"
  "result (erase_log s) = result s"
  "microtasks (erase_log s) = microtasks s"
  "inflight (erase_log s) = inflight s"
  "logged (erase_log s) = []"
  by (simp_all add: erase_log_def)

lemma launch_erase: "launch (erase_log s) = erase_log (launch s)"
  by (simp add: launch_def erase_log_def split: prod.splits)

lemma tick_erase_Some:
  assumes "tick par s = Some s'"
  shows "tick par (erase_log s) = Some (erase_log s')"
  using assms
proof (induction rule: tick_induct)
  case (stop s)
  then show ?case using tick.simps[of par "erase_log s"] by auto
next
  case (resolve s)
  then show ?case using tick.simps[of par "erase_log s"] by (auto simp: erase_log_def)
next
  case (launch s s')
  then show ?case using tick.simps[of par "erase_log s"] by (auto simp: launch_erase)
qed

lemma tick_erase_returns:
  assumes "tick par u0 = Some u"
  shows "\<forall>s. u0 = erase_log s \<longrightarrow> (\<exists>s'. tick par s = Some s')"
  using assms
proof (induction rule: tick_induct)
  case (stop u0)
  show ?case
  proof (intro allI impI)
    fix s assume "u0 = erase_log s"
    with stop show "\<exists>s'. tick par s = Some s'" using tick.simps[of par s] by auto
  qed
next
  case (resolve u0)
  show ?case
  proof (intro allI impI)
    fix s assume "u0 = erase_log s"
    with resolve show "\<exists>s'. tick par s = Some s'" using tick.simps[of par s] by auto
  qed
next
  case (launch u0 u)
  show ?case
  proof (intro allI impI)
    fix s assume u0: "u0 = erase_log s"
    then have "launch u0 = erase_log (launch s)" by (simp add: launch_erase)
    with launch(5) obtain s' where "tick par (launch s) = Some s'" by blast
    with launch(1-3) u0 show "\<exists>s'. tick par s = Some s'" using tick.simps[of par s] by auto
  qed
qed

lemma tick_erase: "tick par (erase_log s) = map_option erase_log (tick par s)"
proof (cases "tick par s")
  case (Some s')
  then show ?thesis by (simp add: tick_erase_Some)
next
  case None
  have "tick par (erase_log s) = None"
  proof (rule ccontr)
    assume "tick par (erase_log s) \<noteq> None"
    then obtain u where "tick par (erase_log s) = Some u" by auto
    from tick_erase_returns[OF this] None show False by auto
  qed
  with None show ?thesis by simp
qed

lemma onRejected_erase: "onRejected e (erase_log s) = erase_log (onRejected e s)"
  by (simp add: onRejected_def erase_log_def)

lemma run_microtask_erase: "run_microtask (erase_log s) m = erase_log (run_microtask s m)"
proof (cases m)
  case None
  then show ?thesis by (simp add: onRejected_erase)
next
  case (Some x)
  then show ?thesis by (simp add: erase_log_def)
qed

lemma foldl_run_microtask_erase:
  "foldl run_microtask (erase_log s) ms = erase_log (foldl run_microtask s ms)"
  by (induction ms arbitrary: s) (simp_all add: run_microtask_erase)

lemma drain_erase: "drain (erase_log s) = erase_log (drain s)"
proof -
  have e: "(erase_log s)\<lparr>microtasks := []\<rparr> = erase_log (s\<lparr>microtasks := []\<rparr>)"
    by (simp add: erase_log_def)
  have "drain (erase_log s) =
          foldl run_microtask ((erase_log s)\<lparr>microtasks := []\<rparr>) (microtasks (erase_log s))"
    by (simp only: drain_def)
  also have "\<dots> = foldl run_microtask (erase_log (s\<lparr>microtasks := []\<rparr>)) (microtasks s)"
    unfolding e by simp
  also have "\<dots> = erase_log (foldl run_microtask (s\<lparr>microtasks := []\<rparr>) (microtasks s))"
    by (rule foldl_run_microtask_erase)
  finally show ?thesis by (simp add: drain_def)
qed

lemma call_debugLog_erase:
  assumes "\<forall>opname p info. cb opname p info = None"
  shows "call_debugLog (Some cb) a b c s = (None, s\<lparr>logged := logged s @ [(a, b, c)]\<rparr>)"
  using assms by (simp add: call_debugLog_def)

lemma call_debugLog_None: "call_debugLog None a b c s = (None, s)"
  by (simp add: call_debugLog_def)

lemma statOp_erase:
  assumes "\<forall>opname p info. cb opname p info = None"
  shows "statOp fs None x (erase_log s) =
           (fst (statOp fs (Some cb) x s), erase_log (snd (statOp fs (Some cb) x s)))"
  by (simp add: statOp_def call_debugLog_erase[OF assms] call_debugLog_None erase_log_def
        enqueueRead_def split: sum.splits)

lemma readOp_erase:
  assumes "\<forall>opname p info. cb opname p info = None"
  shows "readOp fs None x (erase_log s) =
           (fst (readOp fs (Some cb) x s), erase_log (snd (readOp fs (Some cb) x s)))"
  by (simp add: readOp_def call_debugLog_erase[OF assms] call_debugLog_None erase_log_def
        foldl_enqueueStat split: sum.splits)

lemma exec_op_erase:
  assumes "\<forall>opname p info. cb opname p info = None"
  shows "exec_op fs None x (erase_log s) =
           (fst (exec_op fs (Some cb) x s), erase_log (snd (exec_op fs (Some cb) x s)))"
  by (simp add: exec_op_def statOp_erase[OF assms] readOp_erase[OF assms] split: exec.splits)

lemma complete_erase:
  assumes "\<forall>opname p info. cb opname p info = None"
  shows "complete fs par None i (erase_log s) = map_option erase_log (complete fs par (Some cb) i s)"
proof (cases "i < length (inflight s)")
  case False
  then show ?thesis by (simp add: complete_def)
next
  case True
  let ?s0 = "s\<lparr>inflight := take i (inflight s) @ drop (Suc i) (inflight s)\<rparr>"
  obtain r s1 where ex: "exec_op fs (Some cb) (inflight s ! i) ?s0 = (r, s1)" by force
  have e0: "(erase_log s)\<lparr>inflight := take i (inflight s) @ drop (Suc i) (inflight s)\<rparr>
              = erase_log ?s0"
    by (simp add: erase_log_def)
  have ex': "exec_op fs None (inflight s ! i) (erase_log ?s0) = (r, erase_log s1)"
    using exec_op_erase[OF assms, of fs "inflight s ! i" ?s0] ex by simp
  have dec: "(erase_log s1)\<lparr>activeCount := activeCount s1 - 1\<rparr>
               = erase_log (s1\<lparr>activeCount := activeCount s1 - 1\<rparr>)"
    by (simp add: erase_log_def)
  show ?thesis
  proof (cases r)
    case None
    have "complete fs par None i (erase_log s) =
            map_option drain (tick par (erase_log (s1\<lparr>activeCount := activeCount s1 - 1\<rparr>)))"
      using True ex' None by (simp add: complete_def e0 onFulfilled_def dec)
    also have "\<dots> = map_option erase_log
            (map_option drain (tick par (s1\<lparr>activeCount := activeCount s1 - 1\<rparr>)))"
      by (simp add: tick_erase option.map_comp comp_def drain_erase)
    also have "\<dots> = map_option erase_log (complete fs par (Some cb) i s)"
      using True ex None by (simp add: complete_def onFulfilled_def)
    finally show ?thesis .
  next
    case (Some e)
    then show ?thesis using True ex ex'
      by (simp add: complete_def e0 onRejected_erase)
  qed
qed

lemma events_erase:
  assumes "\<forall>opname p info. cb opname p info = None"
  shows "events fs par None sched (erase_log s) =
           map_option erase_log (events fs par (Some cb) sched s)"
proof (induction sched arbitrary: s)
  case Nil
  show ?case by simp
next
  case (Cons i sched)
  show ?case
  proof (cases "complete fs par (Some cb) i s")
    case None
    then show ?thesis using complete_erase[OF assms, of fs par i s] by simp
  next
    case (Some s1)
    then show ?thesis using complete_erase[OF assms, of fs par i s] Cons.IH[of s1] by simp
  qed
qed

lemma diskUsage_erase:
  "diskUsage fs p par dbg = Some s \<Longrightarrow> erase_log s = s"
proof -
  assume d: "diskUsage fs p par dbg = Some s"
  let ?s0 = "enqueueStat p (init fs p par)"
  have e: "erase_log ?s0 = ?s0" by (simp add: erase_log_def enqueueStat_def init_def)
  from d obtain s2 where t: "tick par ?s0 = Some s2" and s: "s = drain s2"
    by (auto simp: diskUsage_def)
  from tick_erase[of par ?s0] t e have "erase_log s2 = s2" by simp
  then show ?thesis using drain_erase[of s2] s by simp
qed

subsection \<open>The invariants at every program point\<close>

lemma tick_activeCount_mono:
  assumes "tick par s = Some s'"
  shows "activeCount s \<le> activeCount s'"
  using assms by (induction rule: tick_induct) simp_all

lemma tick_stops_iff:
  "tick_stops par s \<longleftrightarrow>
     completed s \<or> (par \<noteq> 0 \<and> par \<le> activeCount s) \<or> (activeCount s = 0 \<and> queue s = [])"
proof (cases "completed s \<or> (par \<noteq> 0 \<and> par \<le> activeCount s) \<or> (activeCount s = 0 \<and> queue s = [])")
  case True
  then show ?thesis using tick.simps[of par s] by (auto simp: tick_stops_def)
next
  case False
  then have eq: "tick par s = tick par (launch s)" using tick.simps[of par s] by auto
  have "\<not> tick_stops par s"
  proof
    assume "tick_stops par s"
    then obtain s' where s': "tick par s = Some s'" "activeCount s' = activeCount s"
      by (auto simp: tick_stops_def)
    with eq have "tick par (launch s) = Some s'" by simp
    from tick_activeCount_mono[OF this] s'(2) show False by simp
  qed
  with False show ?thesis by simp
qed

lemma points_inv:
  assumes "pt \<in> points fs p par dbg"
  shows "point_inv par pt"
  using assms
proof (induction rule: points.induct)
  case seed
  show ?case by (simp add: tick_inv_def enqueueStat_def init_def)
next
  case (launch s)
  from launch.hyps have "\<not> completed s" "\<not> (par \<noteq> 0 \<and> par \<le> activeCount s)"
    by (simp_all add: tick_stops_iff)
  with launch.IH show ?case by (simp add: launch_tick_inv)
next
  case (return s s')
  from return.hyps(2) return.IH have "tick_inv par s'" by (simp add: tick_tinv)
  then show ?case by (auto simp: pending_inv_def tick_inv_def)
next
  case (reaction m ms s)
  then show ?case by (cases m) (auto simp: pending_inv_def)
next
  case (idle s)
  then show ?case by (auto simp: pending_inv_def turn_inv_def tick_inv_def)
next
  case (completion s i r s1)
  note fr = exec_op_frame[OF completion.hyps(3)]
  have "int (length (take i (inflight s) @ drop (Suc i) (inflight s))) = int (length (inflight s)) - 1"
    using completion.hyps(2) by simp
  with completion.IH fr show ?case
    by (auto simp: handler_inv_def turn_inv_def tick_inv_def)
next
  case (fulfilled s)
  then show ?case by (auto simp: handler_inv_def tick_inv_def)
next
  case (rejected err s)
  then show ?case by (auto simp: handler_inv_def turn_inv_def tick_inv_def)
qed

lemma points_drain:
  "Micro ms s \<in> points fs p par dbg \<Longrightarrow> Idle (foldl run_microtask s ms) \<in> points fs p par dbg"
proof (induction ms arbitrary: s)
  case Nil
  then show ?case by (simp add: points.idle)
next
  case (Cons m ms)
  from points.reaction[OF Cons.prems] Cons.IH show ?case by simp
qed

lemma points_tick_drain:
  assumes "Tick s \<in> points fs p par dbg" and "tick par s = Some s'"
  shows "Idle (drain s') \<in> points fs p par dbg"
  unfolding drain_def using points.return[OF assms] by (rule points_drain)

lemma points_complete:
  assumes "Idle s \<in> points fs p par dbg" and "complete fs par dbg i s = Some s'"
  shows "Idle s' \<in> points fs p par dbg"
proof (cases "i < length (inflight s)")
  case False
  with assms show ?thesis by (simp add: complete_def)
next
  case True
  obtain r s1 where ex: "exec_op fs dbg (inflight s ! i)
       (s\<lparr>inflight := take i (inflight s) @ drop (Suc i) (inflight s)\<rparr>) = (r, s1)" by force
  from points.completion[OF assms(1) True ex] have h: "Handler r s1 \<in> points fs p par dbg" .
  show ?thesis
  proof (cases r)
    case None
    with assms(2) True ex obtain s2 where
      t: "tick par (s1\<lparr>activeCount := activeCount s1 - 1\<rparr>) = Some s2" and s': "s' = drain s2"
      by (auto simp: complete_def onFulfilled_def)
    from h None have "Tick (s1\<lparr>activeCount := activeCount s1 - 1\<rparr>) \<in> points fs p par dbg"
      by (simp add: points.fulfilled)
    from points_tick_drain[OF this t] show ?thesis by (simp add: s')
  next
    case (Some e)
    with assms(2) True ex have "s' = onRejected e s1" by (simp add: complete_def)
    with h Some show ?thesis by (simp add: points.rejected)
  qed
qed

lemma points_events:
  "Idle s \<in> points fs p par dbg \<Longrightarrow> events fs par dbg sched s = Some s' \<Longrightarrow>
   Idle s' \<in> points fs p par dbg"
proof (induction sched arbitrary: s)
  case Nil
  then show ?case by simp
next
  case (Cons i sched)
  from Cons.prems(2) obtain s1 where c: "complete fs par dbg i s = Some s1"
    and e: "events fs par dbg sched s1 = Some s'"
    by (simp split: option.splits)
  from Cons.IH[OF points_complete[OF Cons.prems(1) c] e] show ?case .
qed

lemma points_run:
  assumes "run fs p par dbg sched = Some s"
  shows "Idle s \<in> points fs p par dbg"
proof -
  from assms obtain s0 where d: "diskUsage fs p par dbg = Some s0"
    and e: "events fs par dbg sched s0 = Some s"
    by (auto simp: run_def split: option.splits)
  from d obtain s2 where t: "tick par (enqueueStat p (init fs p par)) = Some s2"
    and s0: "s0 = drain s2"
    by (auto simp: diskUsage_def)
  from points_tick_drain[OF points.seed t] have "Idle s0 \<in> points fs p par dbg"
    by (simp add: s0)
  from points_events[OF this e] show ?thesis .
qed

lemma point_inv_bounds:
  assumes "point_inv par pt"
  shows "activeCount (state_of pt) = int (outstanding pt) \<and> 0 \<le> activeCount (state_of pt) \<and>
         (0 < par \<longrightarrow> activeCount (state_of pt) \<le> par)"
  using assms
  by (cases pt) (auto simp: tick_inv_def pending_inv_def handler_inv_def turn_inv_def)

subsection \<open>Failures, wherever they arise\<close>

lemma complete_completed_active:
  assumes "completed s" and "microtasks s = []" and "complete fs par dbg i s = Some s'"
  shows "activeCount s' \<le> activeCount s"
proof (cases "i < length (inflight s)")
  case False
  with assms show ?thesis by (simp add: complete_def)
next
  case True
  define s0 where "s0 = s\<lparr>inflight := take i (inflight s) @ drop (Suc i) (inflight s)\<rparr>"
  obtain r s1 where ex: "exec_op fs dbg (inflight s ! i) s0 = (r, s1)" by force
  note fr = exec_op_frame[OF ex]
  show ?thesis
  proof (cases r)
    case None
    have t: "tick par (s1\<lparr>activeCount := activeCount s1 - 1\<rparr>) = Some (s1\<lparr>activeCount := activeCount s1 - 1\<rparr>)"
      using fr assms by (simp add: tick_completed s0_def)
    have d: "drain (s1\<lparr>activeCount := activeCount s1 - 1\<rparr>) = s1\<lparr>activeCount := activeCount s1 - 1\<rparr>"
      using fr assms by (simp add: drain_def s0_def)
    have "complete fs par dbg i s = Some (s1\<lparr>activeCount := activeCount s1 - 1\<rparr>)"
      using True ex None t d by (simp add: complete_def s0_def[symmetric] onFulfilled_def)
    with assms(3) have "s' = s1\<lparr>activeCount := activeCount s1 - 1\<rparr>" by simp
    with fr show ?thesis by (simp add: s0_def)
  next
    case (Some e)
    then have "complete fs par dbg i s = Some (onRejected e s1)"
      using True ex by (simp add: complete_def s0_def[symmetric])
    with assms(3) have "s' = onRejected e s1" by simp
    with fr show ?thesis by (simp add: s0_def)
  qed
qed

lemma events_completed_active:
  assumes "completed s" and "microtasks s = []" and "events fs par dbg sched s = Some s'"
  shows "activeCount s' \<le> activeCount s"
  using assms
proof (induction sched arbitrary: s)
  case Nil
  then show ?case by simp
next
  case (Cons i sched)
  from Cons.prems(3) obtain s1 where c: "complete fs par dbg i s = Some s1"
    and e: "events fs par dbg sched s1 = Some s'"
    by (simp split: option.splits)
  from complete_completed[OF Cons.prems(1,2), of fs par dbg i] c
  have "completed s1" "microtasks s1 = []" by auto
  from Cons.IH[OF this e] complete_completed_active[OF Cons.prems(1,2) c]
  show ?case by simp
qed

lemma foldl_run_microtask_effect:
  "settled (foldl run_microtask s ms) =
     (if completed s \<or> None \<notin> set ms then settled s else settled s @ [Reject TypeError]) \<and>
   (completed (foldl run_microtask s ms) \<longleftrightarrow> completed s \<or> None \<in> set ms) \<and>
   activeCount (foldl run_microtask s ms) = activeCount s - int (count_list ms None) \<and>
   queue (foldl run_microtask s ms) = queue s \<and>
   result (foldl run_microtask s ms) = result s \<and>
   microtasks (foldl run_microtask s ms) = microtasks s \<and>
   inflight (foldl run_microtask s ms) = inflight s @ launched ms"
proof (induction ms arbitrary: s)
  case Nil
  show ?case by simp
next
  case (Cons m ms)
  show ?case
  proof (cases m)
    case None
    show ?thesis using Cons[of "onRejected TypeError s"] by (simp add: None)
  next
    case (Some x)
    show ?thesis using Cons[of "s\<lparr>inflight := inflight s @ [x]\<rparr>"] by (simp add: Some)
  qed
qed

lemma drain_effect:
  "settled (drain s) =
     (if completed s \<or> None \<notin> set (microtasks s) then settled s
      else settled s @ [Reject TypeError]) \<and>
   (completed (drain s) \<longleftrightarrow> completed s \<or> None \<in> set (microtasks s)) \<and>
   activeCount (drain s) = activeCount s - int (count_list (microtasks s) None) \<and>
   queue (drain s) = queue s \<and>
   result (drain s) = result s \<and>
   microtasks (drain s) = [] \<and>
   inflight (drain s) = inflight s @ launched (microtasks s)"
  using foldl_run_microtask_effect[of "s\<lparr>microtasks := []\<rparr>" "microtasks s"]
  by (simp add: drain_def)

subsection \<open>Runs on the example file system\<close>

lemmas example_defs =
  run_def diskUsage_def init_def enqueueStat_def enqueueRead_def launch_def pop_def drain_def
  complete_def exec_op_def statOp_def readOp_def call_debugLog_def onFulfilled_def
  onRejected_def fs_example_def dir_stats_def file_stats_def

lemma run_example_limit1:
  "run fs_example ''/r'' 1 None [0, 0, 0, 0, 0] = Some final_example"
  by (simp add: example_defs tick.simps final_example_def report_example_def)

lemma final_example_simps:
  "completed final_example" "settled final_example = [Resolve report_example]"
  "microtasks final_example = []"
  by (simp_all add: final_example_def)

lemma represents_example:
  "represents fs_example ''/r'' tree_example"
  by (simp add: tree_example_def fs_example_def dir_stats_def file_stats_def)

subsection \<open>The claims\<close>

text \<open>
  C1. The claim: when \<open>tick\<close> is called with the outcome unresolved, the queue empty,
  \<open>activeCount > 0\<close> and the ceiling not reached, it stops without launching anything
  and leaves the state unchanged. The code does not: with one task active, an empty
  queue and \<open>parallelism = 3\<close>, line 59 is false (its test needs \<open>activeCount = 0\<close>),
  so line 68 pops \<open>undefined\<close>, \<open>activeCount\<close> becomes 2, and the next call does the
  same; \<open>tick\<close> returns with \<open>activeCount = 3\<close> and two executions of \<open>undefined\<close>
  registered.
\<close>

theorem tick_empty_queue_launches:
  "tick 3 \<lparr>result = r, activeCount = 1, queue = [], completed = False, settled = [],
           microtasks = [], inflight = [x], logged = []\<rparr>
   = Some \<lparr>result = r, activeCount = 3, queue = [], completed = False, settled = [],
           microtasks = [None, None], inflight = [x], logged = []\<rparr>"
  by (simp add: tick.simps launch_def pop_def)

text \<open>
  C3. The claim: for every finite tree and every limit, 0 included, a run comes to an
  end with the report. With \<open>parallelism = 0\<close> the ceiling test of line 54 never
  holds, and after the first launch \<open>activeCount\<close> is positive, so the test of line 59
  never holds either: \<open>tick\<close> launches and calls itself without end, whatever the path
  and the file system. The call of \<open>diskUsage\<close> does not return.
\<close>

theorem diskUsage_unbounded_never_returns:
  "diskUsage fs p 0 dbg = None"
proof -
  have "tick 0 (enqueueStat p (init fs p 0)) = None"
    by (rule tick_unbounded_diverges) (simp_all add: enqueueStat_def init_def)
  then show ?thesis by (simp add: diskUsage_def)
qed

text \<open>
  C4. In every run the promise is settled at most once, and \<open>completed\<close> records that
  it has been. From then on a call of \<open>tick\<close> returns the state as it is, the failure
  handler does not settle again, and no later completion, in any order, changes the
  outcome.
\<close>

theorem outcome_settled_once:
  assumes "run fs p par dbg sched = Some s"
  shows "length (settled s) \<le> 1 \<and> (completed s \<longleftrightarrow> settled s \<noteq> []) \<and>
         (completed s \<longrightarrow>
            tick par s = Some s \<and>
            settled (onRejected err s) = settled s \<and>
            (\<exists>s'. events fs par dbg later s = Some s' \<and> settled s' = settled s))"
proof -
  from run_inv[OF assms] have i: "turn_inv par s" .
  then have "length (settled s) \<le> 1" "completed s \<longleftrightarrow> settled s \<noteq> []" "microtasks s = []"
    by (simp_all add: turn_inv_def tick_inv_def)
  moreover have "\<exists>s'. events fs par dbg later s = Some s' \<and> settled s' = settled s" if "completed s"
    using events_completed[OF that \<open>microtasks s = []\<close>, of fs par dbg later] by blast
  ultimately show ?thesis by (simp add: tick_completed)
qed

theorem outcome_settled_once_witness:
  "run fs_example ''/r'' 1 None [0, 0, 0, 0, 0] = Some final_example \<and>
   length (settled final_example) \<le> 1 \<and> completed final_example \<and>
   settled final_example \<noteq> [] \<and> tick 1 final_example = Some final_example \<and>
   settled (onRejected TypeError final_example) = settled final_example \<and>
   (\<exists>s'. events fs_example 1 None [0, 1] final_example = Some s' \<and>
         settled s' = settled final_example)"
  using outcome_settled_once [OF run_example_limit1, of TypeError "[0, 1]"]
    run_example_limit1 final_example_simps(1) by blast

text \<open>
  C5. At every program point of a run (every entry of \<open>tick\<close>, every reaction, every
  handler, and between the turns) \<open>activeCount\<close> is the number of tasks that were
  launched and whose handler has not run yet: each decrement belongs to one earlier
  increment, and the counter is never negative. With a positive limit it never exceeds
  the limit, and \<open>tick\<close> goes on to launch only from a state with
  \<open>activeCount < limit\<close>, which the launch raises by one. The states \<open>run\<close> returns
  are among the points.
\<close>

theorem activeCount_bounds:
  "(run fs p par dbg sched = Some s \<longrightarrow>
      Idle s \<in> points fs p par dbg \<and> 0 \<le> activeCount s \<and>
      (0 < par \<longrightarrow> activeCount s \<le> par) \<and> activeCount s = int (length (inflight s))) \<and>
   (pt \<in> points fs p par dbg \<longrightarrow>
      activeCount (state_of pt) = int (outstanding pt) \<and> 0 \<le> activeCount (state_of pt) \<and>
      (0 < par \<longrightarrow> activeCount (state_of pt) \<le> par)) \<and>
   (0 < par \<and> \<not> tick_stops par t \<longrightarrow>
      activeCount t < par \<and> activeCount (launch t) = activeCount t + 1)"
proof (intro conjI impI)
  assume r: "run fs p par dbg sched = Some s"
  from points_run[OF r] show i: "Idle s \<in> points fs p par dbg" .
  from point_inv_bounds[OF points_inv[OF i]]
  show "0 \<le> activeCount s" "activeCount s = int (length (inflight s))" by simp_all
  assume "0 < par"
  with point_inv_bounds[OF points_inv[OF i]] show "activeCount s \<le> par" by simp
next
  assume pt: "pt \<in> points fs p par dbg"
  from point_inv_bounds[OF points_inv[OF pt]]
  show "activeCount (state_of pt) = int (outstanding pt)" "0 \<le> activeCount (state_of pt)"
    by simp_all
  assume "0 < par"
  with point_inv_bounds[OF points_inv[OF pt]] show "activeCount (state_of pt) \<le> par" by simp
next
  assume a: "0 < par \<and> \<not> tick_stops par t"
  then show "activeCount t < par" by (auto simp: tick_stops_iff)
  show "activeCount (launch t) = activeCount t + 1" by simp
qed

theorem activeCount_bounds_witness:
  "run fs_example ''/r'' 2 None [] = Some limit2_example \<and>
   Idle limit2_example \<in> points fs_example ''/r'' 2 None \<and>
   activeCount limit2_example = 1 \<and>
   Tick (launch (launch seed_example)) \<in> points fs_example ''/r'' 2 None \<and>
   activeCount (launch (launch seed_example)) = 2 \<and>
   outstanding (Tick (launch (launch seed_example))) = 2 \<and>
   (0::int) < 2 \<and> \<not> tick_stops 2 (launch seed_example) \<and>
   activeCount (launch seed_example) < 2 \<and>
   activeCount (launch (launch seed_example)) = activeCount (launch seed_example) + 1"
proof -
  have r: "run fs_example ''/r'' 2 None [] = Some limit2_example"
    by (simp add: limit2_example_def example_defs tick.simps)
  have n0: "\<not> tick_stops 2 (enqueueStat ''/r'' (init fs_example ''/r'' 2))"
    by (simp add: tick_stops_iff enqueueStat_def init_def)
  have n1: "\<not> tick_stops 2 (launch (enqueueStat ''/r'' (init fs_example ''/r'' 2)))"
    by (simp add: tick_stops_iff enqueueStat_def init_def)
  have pt: "Tick (launch (launch seed_example)) \<in> points fs_example ''/r'' 2 None"
    unfolding seed_example_def by (rule points.launch[OF points.launch[OF points.seed n0] n1])
  have v: "activeCount (launch (launch seed_example)) = 2"
    "outstanding (Tick (launch (launch seed_example))) = 2"
    "activeCount limit2_example = 1"
    by (simp_all add: seed_example_def limit2_example_def enqueueStat_def init_def)
  from activeCount_bounds [of fs_example "''/r''" 2 None "[]" limit2_example
      "Tick (launch (launch seed_example))" "launch seed_example"]
    r pt n1 v
  show ?thesis by (simp add: seed_example_def)
qed

text \<open>
  C7. The claim: on a root path that does not exist the run fails with an
  \<open>InvalidArgument\<close> error. The code has no such error: the handler of line 77 passes
  on what it receives. On the example file system the path \<open>/nope\<close> does not exist,
  \<open>stat\<close> fails with the system error \<open>ENOENT\<close>, and the run with limit 1 is rejected
  with that very error.
\<close>

theorem missing_root_raw_error:
  "asyncStat fs_example ''/nope'' = Inl (SystemError ''ENOENT'') \<and>
   map_option settled (run fs_example ''/nope'' 1 None [0]) =
     Some [Reject (SystemError ''ENOENT'')]"
  by (simp add: example_defs tick.simps)

text \<open>
  C7, amended. When the \<open>stat\<close> of the root path fails with an error \<open>e\<close>, the run with
  limit 1 is rejected with \<open>e\<close> itself as soon as that \<open>stat\<close> completes, and nothing
  else is ever delivered: no report.
\<close>

theorem missing_root_rejects:
  assumes "asyncStat fs p = Inl e"
  shows "\<exists>s. run fs p 1 dbg (0 # sched) = Some s \<and> settled s = [Reject e]"
proof -
  let ?x = "\<lparr>path = p, exec = StatOp\<rparr>"
  let ?s1 = "(init fs p 1)\<lparr>activeCount := 1, inflight := [?x]\<rparr>"
  have d: "diskUsage fs p 1 dbg = Some ?s1"
    by (simp add: diskUsage_def tick.simps enqueueStat_def init_def launch_def pop_def drain_def)
  let ?s2 = "(init fs p 1)\<lparr>completed := True, settled := [Reject e]\<rparr>"
  have c: "complete fs 1 dbg 0 ?s1 = Some ?s2"
    using assms by (simp add: complete_def exec_op_def statOp_def onRejected_def init_def)
  have "completed ?s2" "microtasks ?s2 = []" by (simp_all add: init_def)
  from events_completed[OF this, of fs 1 dbg sched] obtain s' where
    "events fs 1 dbg sched ?s2 = Some s'" "settled s' = settled ?s2" by blast
  with d c show ?thesis by (simp add: run_def)
qed

theorem missing_root_rejects_witness:
  "asyncStat fs_example ''/nope'' = Inl (SystemError ''ENOENT'') \<and>
   (\<exists>s. run fs_example ''/nope'' 1 None [0, 0, 3] = Some s \<and>
        settled s = [Reject (SystemError ''ENOENT'')])"
  using missing_root_rejects [of fs_example "''/nope''" "SystemError ''ENOENT''" None "[0, 3]"]
  by (simp add: fs_example_def)

text \<open>
  C8. A launched task fails either when the file-system call of its operation completes
  (or a callback throws in it), or when its reaction runs and finds \<open>undefined\<close>.
  Both ways end in the handler of line 77, which takes one from \<open>activeCount\<close>,
  rejects the promise with the error unless \<open>completed\<close> was set (then the outcome
  stays: the first error wins), sets \<open>completed\<close>, and touches neither the queue nor
  the operations in flight; \<open>tick\<close> is not called, and a call would change nothing.
  For the reactions of one turn: however many of them fail, the promise is rejected at
  most once, \<open>activeCount\<close> goes down by one for each, and nothing is taken from the
  queue; the operations launched before simply start. In whatever follows a failure the
  outcome stays, \<open>activeCount\<close> never goes up again and the operations in flight only
  get fewer.
\<close>

theorem task_failure:
  "(i < length (inflight s) \<and>
    exec_op fs dbg (inflight s ! i)
      (s\<lparr>inflight := take i (inflight s) @ drop (Suc i) (inflight s)\<rparr>) = (Some err, s1) \<and>
    microtasks s = [] \<longrightarrow>
      (\<exists>s'. complete fs par dbg i s = Some s' \<and> s' = onRejected err s1 \<and>
           activeCount s' = activeCount s - 1 \<and>
           settled s' = (if completed s then settled s else settled s @ [Reject err]) \<and>
           completed s' \<and>
           queue s' = queue s1 \<and> microtasks s' = [] \<and>
           inflight s' = take i (inflight s) @ drop (Suc i) (inflight s) \<and>
           tick par s' = Some s')) \<and>
   run_microtask t None = onRejected TypeError t \<and>
   (activeCount (onRejected e v) = activeCount v - 1 \<and>
    settled (onRejected e v) = (if completed v then settled v else settled v @ [Reject e]) \<and>
    completed (onRejected e v) \<and> queue (onRejected e v) = queue v \<and>
    result (onRejected e v) = result v \<and> microtasks (onRejected e v) = microtasks v \<and>
    inflight (onRejected e v) = inflight v \<and>
    tick par (onRejected e v) = Some (onRejected e v)) \<and>
   (settled (drain w) =
      (if completed w \<or> None \<notin> set (microtasks w) then settled w
       else settled w @ [Reject TypeError]) \<and>
    (completed (drain w) \<longleftrightarrow> completed w \<or> None \<in> set (microtasks w)) \<and>
    activeCount (drain w) = activeCount w - int (count_list (microtasks w) None) \<and>
    queue (drain w) = queue w \<and> result (drain w) = result w \<and>
    inflight (drain w) = inflight w @ launched (microtasks w)) \<and>
   (completed c \<and> microtasks c = [] \<longrightarrow>
      (\<exists>c'. events fs par dbg later c = Some c' \<and> completed c' \<and>
            settled c' = settled c \<and> activeCount c' \<le> activeCount c \<and>
            length (inflight c') \<le> length (inflight c)))"
proof (intro conjI impI)
  assume a: "i < length (inflight s) \<and>
    exec_op fs dbg (inflight s ! i)
      (s\<lparr>inflight := take i (inflight s) @ drop (Suc i) (inflight s)\<rparr>) = (Some err, s1) \<and>
    microtasks s = []"
  from a have ex: "exec_op fs dbg (inflight s ! i)
      (s\<lparr>inflight := take i (inflight s) @ drop (Suc i) (inflight s)\<rparr>) = (Some err, s1)"
    by simp
  note fr = exec_op_frame[OF ex]
  have c: "complete fs par dbg i s = Some (onRejected err s1)"
    using a by (simp add: complete_def)
  from a fr c show "\<exists>s'. complete fs par dbg i s = Some s' \<and> s' = onRejected err s1 \<and>
           activeCount s' = activeCount s - 1 \<and>
           settled s' = (if completed s then settled s else settled s @ [Reject err]) \<and>
           completed s' \<and>
           queue s' = queue s1 \<and> microtasks s' = [] \<and>
           inflight s' = take i (inflight s) @ drop (Suc i) (inflight s) \<and>
           tick par s' = Some s'"
    by (auto simp: tick_completed)
next
  assume c: "completed c \<and> microtasks c = []"
  then obtain c' where e: "events fs par dbg later c = Some c'" and
    "completed c'" "settled c' = settled c" "length (inflight c') \<le> length (inflight c)"
    using events_completed[of c fs par dbg later] by blast
  moreover from events_completed_active[OF _ _ e] c have "activeCount c' \<le> activeCount c" by simp
  ultimately show "\<exists>c'. events fs par dbg later c = Some c' \<and> completed c' \<and>
            settled c' = settled c \<and> activeCount c' \<le> activeCount c \<and>
            length (inflight c') \<le> length (inflight c)" by simp
qed (simp_all add: tick_completed drain_effect)

theorem task_failure_witness:
  "0 < length (inflight nope_rejected) \<and>
   exec_op fs_example None (inflight nope_rejected ! 0)
     (nope_rejected\<lparr>inflight := take 0 (inflight nope_rejected) @
                                   drop (Suc 0) (inflight nope_rejected)\<rparr>) =
     (Some (SystemError ''ENOENT''), nope_rejected\<lparr>inflight := []\<rparr>) \<and>
   microtasks nope_rejected = [] \<and> completed nope_rejected \<and>
   map_option settled (diskUsage fs_example ''/nope'' 2 None) = Some [Reject TypeError] \<and>
   diskUsage fs_example ''/nope'' 2 None = Some nope_rejected \<and>
   (\<exists>s'. complete fs_example 2 None 0 nope_rejected = Some s' \<and>
         activeCount s' = 0 \<and> settled s' = [Reject TypeError] \<and>
         completed s' \<and> inflight s' = [] \<and> tick 2 s' = Some s') \<and>
   tick 3 (enqueueStat ''/nope'' (init fs_example ''/nope'' 3)) = Some nope_filled \<and>
   settled (drain nope_filled) = [Reject TypeError] \<and> completed (drain nope_filled) \<and>
   activeCount (drain nope_filled) = 1 \<and>
   inflight (drain nope_filled) = [\<lparr>path = ''/nope'', exec = StatOp\<rparr>] \<and>
   (\<exists>c'. events fs_example 2 None [0] nope_rejected = Some c' \<and>
         settled c' = [Reject TypeError] \<and> activeCount c' \<le> 1)"
proof -
  have a: "0 < length (inflight nope_rejected)"
    by (simp add: nope_rejected_def)
  have b: "exec_op fs_example None (inflight nope_rejected ! 0)
     (nope_rejected\<lparr>inflight := take 0 (inflight nope_rejected) @
                                   drop (Suc 0) (inflight nope_rejected)\<rparr>) =
     (Some (SystemError ''ENOENT''), nope_rejected\<lparr>inflight := []\<rparr>)"
    by (simp add: nope_rejected_def example_defs)
  have c: "microtasks nope_rejected = []" "completed nope_rejected"
    "activeCount nope_rejected = 1" "settled nope_rejected = [Reject TypeError]"
    "inflight nope_rejected = [\<lparr>path = ''/nope'', exec = StatOp\<rparr>]"
    by (simp_all add: nope_rejected_def init_def)
  have d: "diskUsage fs_example ''/nope'' 2 None = Some nope_rejected"
    by (simp add: nope_rejected_def example_defs tick.simps)
  have f: "tick 3 (enqueueStat ''/nope'' (init fs_example ''/nope'' 3)) = Some nope_filled"
    by (simp add: nope_filled_def example_defs tick.simps)
  have g: "microtasks nope_filled = [Some \<lparr>path = ''/nope'', exec = StatOp\<rparr>, None, None]"
    "\<not> completed nope_filled" "settled nope_filled = []" "activeCount nope_filled = 3"
    "inflight nope_filled = []"
    by (simp_all add: nope_filled_def init_def)
  from task_failure [of 0 nope_rejected fs_example None "SystemError ''ENOENT''"
      "nope_rejected\<lparr>inflight := []\<rparr>" 2 _ _ _ nope_filled nope_rejected "[0]"]
    a b c d f g
  show ?thesis by auto
qed

text \<open>
  C2. The claim: on one and the same tree, every limit gives a report with the same
  counts. On the example tree the run with limit 1 resolves, with 1 file, 2 directories
  and 100 bytes; the run with limit 2 is rejected with the \<open>TypeError\<close> of
  \<open>undefined.exec\<close> before any file-system call has completed, and gives no report
  (so does every run with a limit of 2 or more, \<open>run_limit_above_one_rejects\<close>).
\<close>

theorem limit_changes_outcome:
  "map_option settled (run fs_example ''/r'' 1 None [0, 0, 0, 0, 0]) =
     Some [Resolve report_example] \<and>
   map_option settled (run fs_example ''/r'' 2 None [0, 0, 0, 0, 0]) =
     Some [Reject TypeError]"
  by (simp add: example_defs tick.simps report_example_def)

text \<open>
  C6. The claim: for a root directory that holds one regular file of 100 bytes and one
  empty directory, the report has \<open>files = 1\<close>, \<open>directories = 1\<close>, \<open>size = 100\<close>.
  The example file system is such a tree, and the report of its run has
  \<open>directories = 2\<close>: \<open>statOp\<close> counts the root as well.
\<close>

theorem example_tree_two_directories:
  "represents fs_example ''/r'' (DirN [(''f'', FileN 100), (''d'', DirN [])]) \<and>
   map_option settled (run fs_example ''/r'' 1 None [0, 0, 0, 0, 0]) =
     Some [Resolve report_example] \<and>
   files report_example = 1 \<and> rsize report_example = 100 \<and>
   directories report_example = 2 \<and> directories report_example \<noteq> 1"
  by (simp add: example_defs tick.simps report_example_def)

text \<open>
  C6, amended. For a root directory that holds one regular file of 100 bytes and one
  empty directory (in either order of listing), every report a run delivers, whatever
  the limit, the callback and the order of completions, has \<open>files = 1\<close>,
  \<open>directories = 2\<close> (the root and the subdirectory) and \<open>size = 100\<close>.
\<close>

theorem one_file_one_empty_directory:
  assumes "represents fs p (DirN [(f, FileN 100), (d, DirN [])]) \<or>
           represents fs p (DirN [(d, DirN []), (f, FileN 100)])"
    and "run fs p par dbg sched = Some s"
    and "Resolve r \<in> set (settled s)"
  shows "files r = 1 \<and> directories r = 2 \<and> rsize r = 100"
proof -
  from assms(1) show ?thesis
  proof
    assume "represents fs p (DirN [(f, FileN 100), (d, DirN [])])"
    from report_totals[OF assms(2) this assms(3)] show ?thesis by simp
  next
    assume "represents fs p (DirN [(d, DirN []), (f, FileN 100)])"
    from report_totals[OF assms(2) this assms(3)] show ?thesis by simp
  qed
qed

theorem one_file_one_empty_directory_witness:
  "represents fs_example ''/r'' (DirN [(''f'', FileN 100), (''d'', DirN [])]) \<and>
   run fs_example ''/r'' 1 None [0, 0, 0, 0, 0] = Some final_example \<and>
   Resolve report_example \<in> set (settled final_example) \<and>
   files report_example = 1 \<and> directories report_example = 2 \<and>
   rsize report_example = 100"
proof -
  have r: "represents fs_example ''/r'' (DirN [(''f'', FileN 100), (''d'', DirN [])])"
    using represents_example by (simp only: tree_example_def)
  have m: "Resolve report_example \<in> set (settled final_example)"
    by (simp add: final_example_simps)
  from one_file_one_empty_directory [OF disjI1 [OF r] run_example_limit1 m]
    r run_example_limit1 m
  show ?thesis by blast
qed

text \<open>
  C9. The claim: a run with a \<open>debugLog\<close> callback and a run without one decide and
  return the same. The callback is called inside the operation, with nothing around the
  call, so what it throws rejects the operation: on the example tree the run with a
  callback that throws is rejected with the thrown value at the first \<open>stat\<close>, and
  the run without a callback resolves.
\<close>

theorem throwing_debugLog_changes_outcome:
  "map_option settled (run fs_example ''/r'' 1 None [0, 0, 0, 0, 0]) =
     Some [Resolve report_example] \<and>
   map_option settled (run fs_example ''/r'' 1 (Some throwing_logger) [0, 0, 0, 0, 0]) =
     Some [Reject (Thrown ''boom'')]"
  by (simp add: example_defs tick.simps throwing_logger_def report_example_def)

text \<open>
  C9, amended. A \<open>debugLog\<close> callback that returns from every call never affects the
  run: for every file system, path, limit and order of completions, the run with the
  callback returns if and only if the run without it does, and then in the same state
  (counters, queue, operations in flight, \<open>activeCount\<close>, \<open>completed\<close>, outcome and
  report), apart from the record of the calls made to the callback.
\<close>

theorem quiet_debugLog_changes_nothing:
  assumes "\<forall>opname p info. cb opname p info = None"
  shows "map_option erase_log (run fs p par (Some cb) sched) = run fs p par None sched"
proof (cases "diskUsage fs p par None")
  case None
  then show ?thesis by (simp add: run_def diskUsage_def)
next
  case (Some s0)
  then have d: "diskUsage fs p par (Some cb) = Some s0" by (simp add: diskUsage_def)
  from events_erase[OF assms, of fs par sched s0] diskUsage_erase[OF Some] Some d
  show ?thesis by (simp add: run_def)
qed

theorem quiet_debugLog_changes_nothing_witness:
  "(\<forall>opname p info. quiet_logger opname p info = None) \<and>
   map_option erase_log (run fs_example ''/r'' 1 (Some quiet_logger) [0, 0, 0, 0, 0]) =
     run fs_example ''/r'' 1 None [0, 0, 0, 0, 0]"
proof -
  have q: "\<forall>opname p info. quiet_logger opname p info = None"
    by (simp add: quiet_logger_def)
  from quiet_debugLog_changes_nothing [OF q] q show ?thesis by blast
qed

text \<open>
  C10. When the root path is a directory and a run delivers a report, whatever the
  limit, the callback and the order of completions, its \<open>directories\<close> field is the
  number of directories of the tree, the root included; so it is at least 1.
\<close>

theorem root_directory_counted:
  assumes "represents fs p (DirN kids)"
    and "run fs p par dbg sched = Some s"
    and "Resolve r \<in> set (settled s)"
  shows "directories r = 1 + sum_list (map (\<lambda>(name, k). count_dirs k) kids) \<and>
         directories r = count_dirs (DirN kids) \<and> 1 \<le> directories r"
  using report_totals[OF assms(2,1,3)] by simp

theorem root_directory_counted_witness:
  "represents fs_example ''/r'' (DirN [(''f'', FileN 100), (''d'', DirN [])]) \<and>
   run fs_example ''/r'' 1 None [0, 0, 0, 0, 0] = Some final_example \<and>
   Resolve report_example \<in> set (settled final_example) \<and>
   directories report_example = count_dirs (DirN [(''f'', FileN 100), (''d'', DirN [])]) \<and>
   1 \<le> directories report_example"
proof -
  have r: "represents fs_example ''/r'' (DirN [(''f'', FileN 100), (''d'', DirN [])])"
    using represents_example by (simp only: tree_example_def)
  have m: "Resolve report_example \<in> set (settled final_example)"
    by (simp add: final_example_simps)
  from root_directory_counted [OF r run_example_limit1 m] r run_example_limit1 m
  show ?thesis by blast
qed

end
